theory Spec2Isabelle
  imports
    Main
    "HOL-Library.AList"
    "HOL-Library.Char_ord"
    "HOL-Library.List_Lexorder"
    "HOL-Library.Word"
begin

section \<open>Data model of \<open>InMemoryDBImpl\<close>\<close>

text \<open>
  The class \<open>InMemoryDBImpl\<close> (in_memory_db_imp.hpp) owns two hash tables:
  \<^verbatim>\<open>records_\<close> (here \<open>records\<close>), from record id to a table from field name to value,
  and \<^verbatim>\<open>ttlMap_\<close> (here \<open>ttlMap\<close>), from record id to a \<^verbatim>\<open>steady_clock::time_point\<close>.

  A \<^verbatim>\<open>std::unordered_map\<close> is modelled as an association list: lookup (\<^verbatim>\<open>find\<close>) is
  \<open>map_of\<close>, \<^verbatim>\<open>erase\<close> is \<open>AList.delete\<close>, assignment through \<^verbatim>\<open>operator[]\<close> is
  \<open>AList.update\<close>, and the order of the list stands for the iteration order of the table,
  which C++ leaves unspecified. The keys of a hash table are unique; for lists this is the
  predicate \<open>wf_db\<close> below, which holds of the empty store and which every operation
  preserves.

  A time point is the number of clock ticks as an unbounded integer (the counter of the
  clock has 64 bits and does not wrap in practice); the steady clock of the usual
  standard libraries ticks in nanoseconds. Every operation receives the reading \<open>now\<close>
  of the clock as an argument, one reading for each call.
\<close>

type_synonym time_point = int
type_synonym fields = "(string \<times> string) list"
type_synonym record_table = "(string \<times> fields) list"
type_synonym ttl_table = "(string \<times> time_point) list"

record db =
  records :: record_table
  ttlMap :: ttl_table

definition empty_db :: db where
  "empty_db = \<lparr>records = [], ttlMap = []\<rparr>"

definition ticks_per_second :: int where
  "ticks_per_second = 1000000000"

text \<open>\<^verbatim>\<open>std::chrono::seconds(n)\<close> converted to the period of the clock.\<close>

definition seconds :: "int \<Rightarrow> int" where
  "seconds n = n * ticks_per_second"

text \<open>\<^verbatim>\<open>duration_cast<seconds>(d).count()\<close>: integer division that truncates towards zero.\<close>

definition duration_cast_seconds :: "int \<Rightarrow> int" where
  "duration_cast_seconds d =
     (if 0 \<le> d then d div ticks_per_second else - ((- d) div ticks_per_second))"

text \<open>\<^verbatim>\<open>static_cast<int>\<close> of a 64-bit count: the value modulo \<open>2 ^ 32\<close>, read as signed.\<close>

definition static_cast_int :: "int \<Rightarrow> int" where
  "static_cast_int c = (c + 2147483648) mod 4294967296 - 2147483648"

section \<open>Helper functions\<close>

definition isRecordExpired :: "time_point \<Rightarrow> db \<Rightarrow> string \<Rightarrow> bool" where
  "isRecordExpired now s recordId =
     (case map_of (ttlMap s) recordId of
        None \<Rightarrow> False
      | Some t \<Rightarrow> now \<ge> t)"

definition cleanupExpiredRecord :: "string \<Rightarrow> db \<Rightarrow> db" where
  "cleanupExpiredRecord recordId s =
     s\<lparr>records := AList.delete recordId (records s),
       ttlMap := AList.delete recordId (ttlMap s)\<rparr>"

text \<open>
  The assignment \<^verbatim>\<open>records_[recordId][field] = value\<close>, used by \<^verbatim>\<open>set\<close> and by
  \<^verbatim>\<open>restore\<close>: \<^verbatim>\<open>operator[]\<close> creates an empty field table for a new record id.
\<close>

definition assign_field :: "string \<Rightarrow> string \<Rightarrow> string \<Rightarrow> record_table \<Rightarrow> record_table" where
  "assign_field recordId field val recs =
     AList.update recordId
       (AList.update field val (case map_of recs recordId of None \<Rightarrow> [] | Some fs \<Rightarrow> fs))
       recs"

section \<open>Level 1: basic operations\<close>

definition set_db :: "time_point \<Rightarrow> string \<Rightarrow> string \<Rightarrow> string \<Rightarrow> db \<Rightarrow> db" where
  "set_db now recordId field val s =
     (let s1 = (if isRecordExpired now s recordId then cleanupExpiredRecord recordId s else s)
      in s1\<lparr>records := assign_field recordId field val (records s1)\<rparr>)"

definition get :: "time_point \<Rightarrow> db \<Rightarrow> string \<Rightarrow> string \<Rightarrow> string option" where
  "get now s recordId field =
     (if isRecordExpired now s recordId then None
      else case map_of (records s) recordId of
             None \<Rightarrow> None
           | Some fs \<Rightarrow> map_of fs field)"

definition deleteField :: "time_point \<Rightarrow> string \<Rightarrow> string \<Rightarrow> db \<Rightarrow> bool \<times> db" where
  "deleteField now recordId field s =
     (if isRecordExpired now s recordId then (False, cleanupExpiredRecord recordId s)
      else case map_of (records s) recordId of
             None \<Rightarrow> (False, s)
           | Some fs \<Rightarrow>
               (case map_of fs field of
                  None \<Rightarrow> (False, s)
                | Some _ \<Rightarrow>
                    (let fs' = AList.delete field fs
                     in if fs' = []
                        then (True, s\<lparr>records := AList.delete recordId (records s),
                                      ttlMap := AList.delete recordId (ttlMap s)\<rparr>)
                        else (True, s\<lparr>records := AList.update recordId fs' (records s)\<rparr>))))"

definition deleteRecord :: "string \<Rightarrow> db \<Rightarrow> bool \<times> db" where
  "deleteRecord recordId s =
     (case map_of (records s) recordId of
        None \<Rightarrow> (False, s)
      | Some _ \<Rightarrow> (True, s\<lparr>records := AList.delete recordId (records s),
                           ttlMap := AList.delete recordId (ttlMap s)\<rparr>))"

definition getFields :: "time_point \<Rightarrow> db \<Rightarrow> string \<Rightarrow> string list" where
  "getFields now s recordId =
     (if isRecordExpired now s recordId then []
      else case map_of (records s) recordId of
             None \<Rightarrow> []
           | Some fs \<Rightarrow> sort (map fst fs))"

definition hasRecord :: "time_point \<Rightarrow> db \<Rightarrow> string \<Rightarrow> bool" where
  "hasRecord now s recordId =
     (if isRecordExpired now s recordId then False
      else map_of (records s) recordId \<noteq> None)"

definition getAllRecordIds :: "time_point \<Rightarrow> db \<Rightarrow> string list" where
  "getAllRecordIds now s =
     sort (filter (\<lambda>recordId. \<not> isRecordExpired now s recordId) (map fst (records s)))"

section \<open>Level 2: filtering\<close>

definition getRecordsByFieldValue :: "time_point \<Rightarrow> db \<Rightarrow> string \<Rightarrow> string \<Rightarrow> string list" where
  "getRecordsByFieldValue now s field val =
     sort (map fst
       (filter (\<lambda>(recordId, fs). \<not> isRecordExpired now s recordId \<and> map_of fs field = Some val)
          (records s)))"

section \<open>Level 3: TTL\<close>

text \<open>The parameter \<^verbatim>\<open>int ttlSeconds\<close> is a signed 32-bit integer.\<close>

definition setTTL :: "time_point \<Rightarrow> string \<Rightarrow> 32 word \<Rightarrow> db \<Rightarrow> db" where
  "setTTL now recordId ttlSeconds s =
     (case map_of (records s) recordId of
        None \<Rightarrow> s
      | Some _ \<Rightarrow> s\<lparr>ttlMap := AList.update recordId (now + seconds (sint ttlSeconds)) (ttlMap s)\<rparr>)"

text \<open>
  The counter \<^verbatim>\<open>int expiredCount\<close> is an unbounded integer here; the two agree as long as
  fewer than \<open>2 ^ 31\<close> entries expire in one sweep.
\<close>

definition expireRecords :: "time_point \<Rightarrow> db \<Rightarrow> int \<times> db" where
  "expireRecords now s =
     (let expiredRecords = map fst (filter (\<lambda>(recordId, t). now \<ge> t) (ttlMap s))
      in (int (length expiredRecords), fold cleanupExpiredRecord expiredRecords s))"

section \<open>Level 4: backup and restore\<close>

subsection \<open>Decimal output and input\<close>

definition endl :: char where
  "endl = CHR 0x0A"

definition digit_char :: "nat \<Rightarrow> char" where
  "digit_char d = char_of (48 + d)"

text \<open>\<^verbatim>\<open>operator<<\<close> on a \<^verbatim>\<open>size_t\<close> and on an \<^verbatim>\<open>int\<close>: the decimal digits, with a minus sign.\<close>

fun show_nat :: "nat \<Rightarrow> string" where
  "show_nat n = (if n < 10 then [digit_char n] else show_nat (n div 10) @ [digit_char (n mod 10)])"

declare show_nat.simps [simp del]

definition show_int :: "int \<Rightarrow> string" where
  "show_int i = (if i < 0 then CHR ''-'' # show_nat (nat (- i)) else show_nat (nat i))"

definition isspace :: "char \<Rightarrow> bool" where
  "isspace c = (c = CHR '' '' \<or> (9 \<le> (of_char c :: nat) \<and> (of_char c :: nat) \<le> 13))"

definition isdigit :: "char \<Rightarrow> bool" where
  "isdigit c = (48 \<le> (of_char c :: nat) \<and> (of_char c :: nat) \<le> 57)"

definition digits_value :: "string \<Rightarrow> int" where
  "digits_value ds = foldl (\<lambda>acc c. 10 * acc + (int (of_char c) - 48)) 0 ds"

datatype stoi_error = invalid_argument | out_of_range

text \<open>
  \<^verbatim>\<open>std::stoi(line)\<close> calls \<^verbatim>\<open>strtol\<close> in base 10: leading white space is skipped, one sign
  is accepted, the longest run of digits is converted and whatever follows is ignored. It
  throws \<^verbatim>\<open>std::invalid_argument\<close> when there is no digit and \<^verbatim>\<open>std::out_of_range\<close> when
  the value is not an \<^verbatim>\<open>int\<close>.
\<close>

definition stoi :: "string \<Rightarrow> stoi_error + int" where
  "stoi str =
     (let s1 = dropWhile isspace str;
          neg = (s1 \<noteq> [] \<and> hd s1 = CHR ''-'');
          s2 = (if s1 \<noteq> [] \<and> (hd s1 = CHR ''-'' \<or> hd s1 = CHR ''+'') then tl s1 else s1);
          ds = takeWhile isdigit s2
      in if ds = [] then Inl invalid_argument
         else (let v = (if neg then - digits_value ds else digits_value ds)
               in if v < - 2147483648 \<or> 2147483647 < v then Inl out_of_range else Inr v))"

text \<open>
  \<^verbatim>\<open>std::getline(stream, line)\<close> on the unread rest of the stream: it fails when nothing
  is left; otherwise the line is everything before the next newline, and the newline is
  consumed with it.
\<close>

definition getline :: "string \<Rightarrow> (string \<times> string) option" where
  "getline stream =
     (if stream = [] then None
      else Some (takeWhile (\<lambda>c. c \<noteq> endl) stream, drop 1 (dropWhile (\<lambda>c. c \<noteq> endl) stream)))"

subsection \<open>backup\<close>

text \<open>
  \<^verbatim>\<open>records_.at(recordId)\<close> inside \<^verbatim>\<open>backup\<close>; the ids it is called with are keys of the
  table, so the exception of \<^verbatim>\<open>at\<close> does not occur there.
\<close>

definition at_record :: "record_table \<Rightarrow> string \<Rightarrow> fields" where
  "at_record recs recordId = (case map_of recs recordId of None \<Rightarrow> [] | Some fs \<Rightarrow> fs)"

definition backup_record :: "record_table \<Rightarrow> string \<Rightarrow> string" where
  "backup_record recs recordId =
     (let fs = at_record recs recordId
      in recordId @ [endl] @ show_nat (length fs) @ [endl] @
         concat (map (\<lambda>(field, val). field @ [endl] @ val @ [endl]) fs))"

definition validTTLs :: "time_point \<Rightarrow> db \<Rightarrow> string list \<Rightarrow> (string \<times> int) list" where
  "validTTLs now s validRecordIds =
     concat (map (\<lambda>recordId.
        (case map_of (ttlMap s) recordId of
           None \<Rightarrow> []
         | Some t \<Rightarrow>
             (let remainingTime = duration_cast_seconds (t - now)
              in if remainingTime > 0 then [(recordId, static_cast_int remainingTime)] else [])))
       validRecordIds)"

definition backup :: "time_point \<Rightarrow> db \<Rightarrow> string" where
  "backup now s =
     (let validRecordIds = filter (\<lambda>recordId. \<not> isRecordExpired now s recordId) (map fst (records s));
          ttls = validTTLs now s validRecordIds
      in show_nat (length validRecordIds) @ [endl] @
         concat (map (backup_record (records s)) validRecordIds) @
         show_nat (length ttls) @ [endl] @
         concat (map (\<lambda>(recordId, n). recordId @ [endl] @ show_int n @ [endl]) ttls))"

subsection \<open>restore\<close>

text \<open>
  A loop of \<^verbatim>\<open>restore\<close> ends in one of three ways: it runs to its end, it leaves the
  function through \<^verbatim>\<open>return false\<close> with the tables as they are at that point, or
  \<^verbatim>\<open>std::stoi\<close> throws and the handler takes over.
\<close>

datatype ('s, 'a) parse = Ok 'a | ReturnFalse 's | Throw stoi_error

text \<open>
  The inner loop \<^verbatim>\<open>for (int j = 0; j < fieldCount; j++)\<close>; the argument counts the
  iterations that remain, the body does not read \<^verbatim>\<open>j\<close>.
\<close>

fun read_fields :: "nat \<Rightarrow> string \<Rightarrow> string \<Rightarrow> record_table \<Rightarrow> (record_table, string \<times> record_table) parse" where
  "read_fields 0 recordId stream recs = Ok (stream, recs)"
| "read_fields (Suc j) recordId stream recs =
     (case getline stream of
        None \<Rightarrow> ReturnFalse recs
      | Some (field, stream1) \<Rightarrow>
          (case getline stream1 of
             None \<Rightarrow> ReturnFalse recs
           | Some (val, stream2) \<Rightarrow>
               read_fields j recordId stream2 (assign_field recordId field val recs)))"

fun read_records :: "nat \<Rightarrow> string \<Rightarrow> record_table \<Rightarrow> (record_table, string \<times> record_table) parse" where
  "read_records 0 stream recs = Ok (stream, recs)"
| "read_records (Suc i) stream recs =
     (case getline stream of
        None \<Rightarrow> ReturnFalse recs
      | Some (recordId, stream1) \<Rightarrow>
          (case getline stream1 of
             None \<Rightarrow> ReturnFalse recs
           | Some (line, stream2) \<Rightarrow>
               (case stoi line of
                  Inl e \<Rightarrow> Throw e
                | Inr fieldCount \<Rightarrow>
                    (case read_fields (nat fieldCount) recordId stream2 recs of
                       Ok (stream3, recs') \<Rightarrow> read_records i stream3 recs'
                     | ReturnFalse recs' \<Rightarrow> ReturnFalse recs'
                     | Throw e \<Rightarrow> Throw e))))"

fun read_ttls :: "time_point \<Rightarrow> nat \<Rightarrow> string \<Rightarrow> ttl_table \<Rightarrow> (ttl_table, string \<times> ttl_table) parse" where
  "read_ttls now 0 stream ttls = Ok (stream, ttls)"
| "read_ttls now (Suc i) stream ttls =
     (case getline stream of
        None \<Rightarrow> ReturnFalse ttls
      | Some (recordId, stream1) \<Rightarrow>
          (case getline stream1 of
             None \<Rightarrow> ReturnFalse ttls
           | Some (line, stream2) \<Rightarrow>
               (case stoi line of
                  Inl e \<Rightarrow> Throw e
                | Inr ttlSeconds \<Rightarrow>
                    read_ttls now i stream2 (AList.update recordId (now + seconds ttlSeconds) ttls))))"

text \<open>
  \<^verbatim>\<open>restore\<close> clears both tables first, so the result does not depend on the store it is
  called on. A \<^verbatim>\<open>return false\<close> leaves the function with the tables as filled so far; an
  exception of \<^verbatim>\<open>std::stoi\<close> reaches the handler, which clears both tables.
\<close>

definition restore :: "time_point \<Rightarrow> string \<Rightarrow> db \<Rightarrow> bool \<times> db" where
  "restore now backupData s =
     (case getline backupData of
        None \<Rightarrow> (False, empty_db)
      | Some (line, stream1) \<Rightarrow>
     (case stoi line of
        Inl e \<Rightarrow> (False, empty_db)
      | Inr recordCount \<Rightarrow>
     (case read_records (nat recordCount) stream1 [] of
        ReturnFalse recs \<Rightarrow> (False, \<lparr>records = recs, ttlMap = []\<rparr>)
      | Throw e \<Rightarrow> (False, empty_db)
      | Ok (stream2, recs) \<Rightarrow>
     (case getline stream2 of
        None \<Rightarrow> (False, \<lparr>records = recs, ttlMap = []\<rparr>)
      | Some (line2, stream3) \<Rightarrow>
     (case stoi line2 of
        Inl e \<Rightarrow> (False, empty_db)
      | Inr ttlCount \<Rightarrow>
     (case read_ttls now (nat ttlCount) stream3 [] of
        ReturnFalse ttls \<Rightarrow> (False, \<lparr>records = recs, ttlMap = ttls\<rparr>)
      | Throw e \<Rightarrow> (False, empty_db)
      | Ok (stream4, ttls) \<Rightarrow> (True, \<lparr>records = recs, ttlMap = ttls\<rparr>)))))))"

section \<open>Sequences of calls\<close>

text \<open>
  A caller's sequence of mutating calls, each with the reading of the clock at the call.
  The clock is monotonic: a store that is looked at when the clock reads \<open>now\<close> was
  built by calls at readings up to \<open>now\<close>, which is what \<open>calls_until\<close> says.
\<close>

datatype call =
    Set string string string
  | DeleteField string string
  | DeleteRecord string
  | SetTTL string "32 word"

fun apply_call :: "time_point \<Rightarrow> call \<Rightarrow> db \<Rightarrow> db" where
  "apply_call now (Set recordId field val) s = set_db now recordId field val s"
| "apply_call now (DeleteField recordId field) s = snd (deleteField now recordId field s)"
| "apply_call now (DeleteRecord recordId) s = snd (deleteRecord recordId s)"
| "apply_call now (SetTTL recordId ttlSeconds) s = setTTL now recordId ttlSeconds s"

fun run_calls :: "(time_point \<times> call) list \<Rightarrow> db \<Rightarrow> db" where
  "run_calls [] s = s"
| "run_calls ((now, c) # cs) s = run_calls cs (apply_call now c s)"

definition calls_until :: "time_point \<Rightarrow> (time_point \<times> call) list \<Rightarrow> bool" where
  "calls_until now cs = list_all (\<lambda>(t, c). t \<le> now) cs"

section \<open>Representation invariant\<close>

text \<open>
  The keys of a hash table are unique. \<open>wf_db\<close> says so for the three kinds of table of
  a store: the record table, the field table of every record, and the TTL table.
\<close>

definition wf_db :: "db \<Rightarrow> bool" where
  "wf_db s =
     (distinct (map fst (records s)) \<and>
      list_all (\<lambda>(recordId, fs). distinct (map fst fs)) (records s) \<and>
      distinct (map fst (ttlMap s)))"

section \<open>Example stores and inputs\<close>

text \<open>One record \<open>t\<close> whose expiration instant 5 lies before the clock reading 10.\<close>

definition expired_store :: db where
  "expired_store = \<lparr>records = [(''t'', [(''d'', ''x'')])], ttlMap = [(''t'', 5)]\<rparr>"

text \<open>The same record with an expiration instant in the future of the clock reading 10.\<close>

definition live_store :: db where
  "live_store = \<lparr>records = [(''t'', [(''d'', ''x'')])], ttlMap = [(''t'', 50)]\<rparr>"

text \<open>The filtering scenario: records \<open>a\<close> and \<open>b\<close> hold \<open>k = v\<close>, record \<open>c\<close> holds \<open>k = w\<close>.\<close>

definition filter_store :: db where
  "filter_store =
     run_calls [(0, Set ''a'' ''k'' ''v''), (0, Set ''b'' ''k'' ''v''), (0, Set ''c'' ''k'' ''w'')] empty_db"

text \<open>Three records; at the clock reading 10 the TTL of \<open>a\<close> has passed, that of \<open>b\<close> has not.\<close>

definition sweep_store :: db where
  "sweep_store =
     \<lparr>records = [(''a'', [(''f'', ''x'')]), (''b'', [(''g'', ''y'')]), (''c'', [(''h'', ''z'')])],
      ttlMap = [(''a'', 5), (''b'', 20)]\<rparr>"

text \<open>
  A snapshot that announces one record, carries it in full and ends before the TTL count:
  \<^verbatim>\<open>1\nrec\n1\nf\nv\n\<close>.
\<close>

definition truncated_snapshot :: string where
  "truncated_snapshot =
     ''1'' @ [endl] @ ''rec'' @ [endl] @ ''1'' @ [endl] @ ''f'' @ [endl] @ ''v'' @ [endl]"

text \<open>
  A snapshot with no record and one TTL pair for the id \<open>ghost\<close>:
  \<^verbatim>\<open>0\n1\nghost\n100\n\<close>.
\<close>

definition ghost_snapshot :: string where
  "ghost_snapshot = ''0'' @ [endl] @ ''1'' @ [endl] @ ''ghost'' @ [endl] @ ''100'' @ [endl]"

text \<open>
  The same with a remaining time of \<open>-5\<close> seconds, so that the TTL entry has expired as
  soon as it is restored: \<^verbatim>\<open>0\n1\nghost\n-5\n\<close>.
\<close>

definition expired_ghost_snapshot :: string where
  "expired_ghost_snapshot =
     ''0'' @ [endl] @ ''1'' @ [endl] @ ''ghost'' @ [endl] @ ''-5'' @ [endl]"

section \<open>Extending a stream by further lines\<close>

text \<open>
  \<open>stream'\<close> is \<open>stream\<close> followed by further text that starts on a line of its own:
  either \<open>stream\<close> is empty or ends with a newline, or the further text begins with one.
\<close>

definition extended_by_lines :: "string \<Rightarrow> string \<Rightarrow> bool" where
  "extended_by_lines stream stream' =
     (\<exists>extra. stream' = stream @ extra \<and>
        (stream = [] \<or> last stream = endl \<or> (extra \<noteq> [] \<and> hd extra = endl)))"

text \<open>A complete snapshot with one record and no TTL pair: \<^verbatim>\<open>1\na\n1\nf\nx\n0\n\<close>.\<close>

definition complete_snapshot :: string where
  "complete_snapshot =
     ''1'' @ [endl] @ ''a'' @ [endl] @ ''1'' @ [endl] @ ''f'' @ [endl] @ ''x'' @ [endl] @
     ''0'' @ [endl]"

definition trailing_lines :: string where
  "trailing_lines = ''7'' @ [endl] @ ''not a ttl'' @ [endl] @ ''no newline at the end''"

section \<open>Stores that the snapshot format can carry\<close>

text \<open>
  The snapshot is a sequence of lines, and \<open>backup\<close> writes ids, field names and values
  as they are: a string can be read back as one line only when it has no newline in it.
\<close>

definition no_newline :: "string \<Rightarrow> bool" where
  "no_newline str = (endl \<notin> set str)"

text \<open>
  What a record of the record table has to satisfy to be read back: an id without a
  newline, at least one field (\<open>restore\<close> creates a record with its first field), unique
  field names, and no newline in a field name or value.
\<close>

definition record_inv :: "string \<times> fields \<Rightarrow> bool" where
  "record_inv = (\<lambda>(recordId, fs).
     no_newline recordId \<and> fs \<noteq> [] \<and> distinct (map fst fs) \<and>
     list_all (\<lambda>(f, v). no_newline f \<and> no_newline v) fs)"

text \<open>
  These properties hold in every store built by \<open>set\<close>, \<open>deleteField\<close>, \<open>deleteRecord\<close> and
  \<open>setTTL\<close> from strings without newlines, at clock readings up to \<open>now\<close>: an expiration
  instant is a clock reading plus at most \<open>2147483647\<close> seconds, the largest \<^verbatim>\<open>int\<close>.
\<close>

definition store_inv :: "time_point \<Rightarrow> db \<Rightarrow> bool" where
  "store_inv now s =
     (distinct (map fst (records s)) \<and>
      list_all record_inv (records s) \<and>
      list_all (\<lambda>(recordId, t). t \<le> now + seconds 2147483647) (ttlMap s))"

text \<open>
  The counts of a snapshot are read back by \<^verbatim>\<open>std::stoi\<close> into an \<^verbatim>\<open>int\<close>: the number of
  records and the number of fields of each record must not exceed \<open>2147483647\<close>.
\<close>

definition counts_fit :: "db \<Rightarrow> bool" where
  "counts_fit s =
     (length (records s) \<le> 2147483647 \<and>
      list_all (\<lambda>(recordId, fs). length fs \<le> 2147483647) (records s))"

definition record_ready :: "string \<times> fields \<Rightarrow> bool" where
  "record_ready = (\<lambda>(recordId, fs). record_inv (recordId, fs) \<and> length fs \<le> 2147483647)"

definition ttl_ready :: "string \<times> int \<Rightarrow> bool" where
  "ttl_ready = (\<lambda>(recordId, n). no_newline recordId \<and> 0 \<le> n \<and> n \<le> 2147483647)"

definition round_trip_ready :: "time_point \<Rightarrow> db \<Rightarrow> bool" where
  "round_trip_ready now s =
     (distinct (map fst (records s)) \<and>
      list_all record_ready (records s) \<and>
      length (records s) \<le> 2147483647 \<and>
      list_all (\<lambda>(recordId, t). t \<le> now + seconds 2147483647) (ttlMap s))"

fun newline_free_call :: "call \<Rightarrow> bool" where
  "newline_free_call (Set recordId field val) =
     (no_newline recordId \<and> no_newline field \<and> no_newline val)"
| "newline_free_call (DeleteField recordId field) = True"
| "newline_free_call (DeleteRecord recordId) = True"
| "newline_free_call (SetTTL recordId ttlSeconds) = True"

text \<open>The text that \<open>backup\<close> writes for the fields of a record, for a record, for a TTL pair.\<close>

definition encode_fields :: "fields \<Rightarrow> string" where
  "encode_fields fs = concat (map (\<lambda>(field, val). field @ [endl] @ val @ [endl]) fs)"

definition encode_record :: "string \<times> fields \<Rightarrow> string" where
  "encode_record = (\<lambda>(recordId, fs).
     recordId @ [endl] @ show_nat (length fs) @ [endl] @ encode_fields fs)"

definition encode_ttl :: "string \<times> int \<Rightarrow> string" where
  "encode_ttl = (\<lambda>(recordId, n). recordId @ [endl] @ show_int n @ [endl])"

text \<open>
  A sequence of calls that sets three records, gives \<open>b\<close> a TTL of 100 seconds, gives \<open>c\<close>
  a TTL of zero seconds, and deletes a field.
\<close>

definition round_trip_calls :: "(time_point \<times> call) list" where
  "round_trip_calls =
     [(0, Set ''a'' ''f'' ''x''), (0, Set ''b'' ''g'' ''y''), (1, SetTTL ''b'' 100),
      (2, Set ''a'' ''h'' ''z''), (2, Set ''c'' ''k'' []), (3, SetTTL ''c'' 0),
      (4, DeleteField ''a'' ''f'')]"

text \<open>One call that stores a value of two lines.\<close>

definition newline_calls :: "(time_point \<times> call) list" where
  "newline_calls = [(0, Set ''a'' ''f'' (''x'' @ [endl] @ ''y''))]"

section \<open>Lemmas on the tables\<close>

lemma map_of_delete_same: "map_of (AList.delete k al) k = None"
  by (simp add: AList.delete_conv')

lemma delete_all_keys: "fst ` set fs \<subseteq> {f} \<Longrightarrow> AList.delete f fs = []"
  by (induction fs) (auto simp: AList.delete_eq)

lemma fold_cleanupExpiredRecord:
  "fold cleanupExpiredRecord ids s =
     s\<lparr>records := filter (\<lambda>p. fst p \<notin> set ids) (records s),
       ttlMap := filter (\<lambda>p. fst p \<notin> set ids) (ttlMap s)\<rparr>"
proof (induction ids arbitrary: s)
  case Nil
  show ?case by simp
next
  case (Cons k ids)
  have del: "\<And>al :: (string \<times> 'x) list.
          filter (\<lambda>p. fst p \<notin> set ids) (AList.delete k al) = filter (\<lambda>p. fst p \<notin> set (k # ids)) al"
    by (auto simp: AList.delete_eq intro: filter_cong)
  have "fold cleanupExpiredRecord (k # ids) s = fold cleanupExpiredRecord ids (cleanupExpiredRecord k s)"
    by simp
  also have "\<dots> = (cleanupExpiredRecord k s)
      \<lparr>records := filter (\<lambda>p. fst p \<notin> set ids) (records (cleanupExpiredRecord k s)),
       ttlMap := filter (\<lambda>p. fst p \<notin> set ids) (ttlMap (cleanupExpiredRecord k s))\<rparr>"
    by (rule Cons.IH)
  also have "\<dots> = s\<lparr>records := filter (\<lambda>p. fst p \<notin> set (k # ids)) (records s),
       ttlMap := filter (\<lambda>p. fst p \<notin> set (k # ids)) (ttlMap s)\<rparr>"
    by (simp add: cleanupExpiredRecord_def del [symmetric] del: set_simps)
  finally show ?case .
qed

lemma expired_keys:
  assumes "distinct (map fst (ttlMap s))"
  shows "set (map fst (filter (\<lambda>(recordId, t). now \<ge> t) (ttlMap s))) =
           {recordId. isRecordExpired now s recordId}"
proof -
  have mem: "\<And>k t. (k, t) \<in> set (ttlMap s) \<longleftrightarrow> map_of (ttlMap s) k = Some t"
    using assms by simp
  show ?thesis
    by (auto simp: isRecordExpired_def mem image_iff split: option.splits)
qed

lemma length_filter_keys:
  assumes "distinct (map fst al)"
  shows "length (filter (\<lambda>p. E (fst p)) al) = card {k \<in> fst ` set al. E k}"
proof -
  have "length (filter (\<lambda>p. E (fst p)) al) = length (filter E (map fst al))"
    by (simp add: filter_map comp_def)
  also have "\<dots> = card (set (filter E (map fst al)))"
    using assms by (metis distinct_card distinct_filter)
  also have "set (filter E (map fst al)) = {k \<in> fst ` set al. E k}"
    by auto
  finally show ?thesis .
qed

lemma expireRecords_unfold:
  assumes "wf_db s"
  shows "expireRecords now s =
     (int (length (filter (\<lambda>p. isRecordExpired now s (fst p)) (ttlMap s))),
      s\<lparr>records := filter (\<lambda>p. \<not> isRecordExpired now s (fst p)) (records s),
        ttlMap := filter (\<lambda>p. \<not> isRecordExpired now s (fst p)) (ttlMap s)\<rparr>)"
proof -
  from assms have d: "distinct (map fst (ttlMap s))"
    by (simp add: wf_db_def)
  have mem: "\<And>k t. (k, t) \<in> set (ttlMap s) \<longleftrightarrow> map_of (ttlMap s) k = Some t"
    using d by simp
  have same: "filter (\<lambda>(recordId, t). now \<ge> t) (ttlMap s) =
      filter (\<lambda>p. isRecordExpired now s (fst p)) (ttlMap s)"
    by (rule filter_cong) (auto simp: isRecordExpired_def mem)
  have ids: "set (map fst (filter (\<lambda>p. isRecordExpired now s (fst p)) (ttlMap s))) =
      {recordId. isRecordExpired now s recordId}"
    using expired_keys [OF d, of now] by (simp only: same)
  have "expireRecords now s =
     (int (length (map fst (filter (\<lambda>p. isRecordExpired now s (fst p)) (ttlMap s)))),
      fold cleanupExpiredRecord (map fst (filter (\<lambda>p. isRecordExpired now s (fst p)) (ttlMap s))) s)"
    by (simp only: expireRecords_def Let_def same)
  then show ?thesis
    by (simp only: fold_cleanupExpiredRecord ids mem_Collect_eq length_map)
qed

section \<open>Deleting fields and records\<close>

text \<open>
  Claim C4. When a record that has not expired holds exactly one field \<open>f\<close>, then
  \<open>deleteField\<close> of that field reports success, and afterwards neither the record table
  nor the TTL table has an entry for the record, so that \<open>hasRecord\<close> is false at every
  later clock reading \<open>now'\<close>.
\<close>

theorem deleteField_last_field:
  assumes "\<not> isRecordExpired now s recordId"
    and "map_of (records s) recordId = Some fs"
    and "dom (map_of fs) = {f}"
  shows "fst (deleteField now recordId f s) = True \<and>
         map_of (records (snd (deleteField now recordId f s))) recordId = None \<and>
         map_of (ttlMap (snd (deleteField now recordId f s))) recordId = None \<and>
         hasRecord now' (snd (deleteField now recordId f s)) recordId = False"
proof -
  from assms(3) have keys: "fst ` set fs \<subseteq> {f}"
    by (simp add: dom_map_of_conv_image_fst)
  from assms(3) obtain v where v: "map_of fs f = Some v"
    by blast
  have del: "AList.delete f fs = []"
    using keys by (rule delete_all_keys)
  have step: "deleteField now recordId f s =
      (True, s\<lparr>records := AList.delete recordId (records s),
                ttlMap := AList.delete recordId (ttlMap s)\<rparr>)"
    using assms(1,2) v del by (simp add: deleteField_def)
  show ?thesis
    by (simp add: step hasRecord_def isRecordExpired_def map_of_delete_same)
qed

theorem deleteField_last_field_witness:
  "\<not> isRecordExpired 10 live_store ''t'' \<and>
   map_of (records live_store) ''t'' = Some [(''d'', ''x'')] \<and>
   dom (map_of [(''d'', ''x'')]) = {''d''} \<and>
   fst (deleteField 10 ''t'' ''d'' live_store) = True \<and>
   map_of (records (snd (deleteField 10 ''t'' ''d'' live_store))) ''t'' = None \<and>
   map_of (ttlMap (snd (deleteField 10 ''t'' ''d'' live_store))) ''t'' = None \<and>
   hasRecord 60 (snd (deleteField 10 ''t'' ''d'' live_store)) ''t'' = False"
proof -
  have h1: "\<not> isRecordExpired 10 live_store ''t''"
    by (simp add: isRecordExpired_def live_store_def)
  have h2: "map_of (records live_store) ''t'' = Some [(''d'', ''x'')]"
    by (simp add: live_store_def)
  have h3: "dom (map_of [(''d'', ''x'')]) = {''d''}"
    by simp
  from deleteField_last_field [OF h1 h2 h3, of 60] h1 h2 h3 show ?thesis
    by blast
qed

text \<open>
  Claim C5. \<open>deleteRecord\<close> reports failure exactly when the record table has no entry
  for the id, and then changes nothing. It does not read the clock: whenever the record
  table has an entry, expired or not, the call reports success and afterwards neither
  table has an entry for the id.
\<close>

theorem deleteRecord_fails_iff_absent:
  "(fst (deleteRecord recordId s) = False \<longleftrightarrow> map_of (records s) recordId = None) \<and>
   (map_of (records s) recordId \<noteq> None \<longrightarrow>
      fst (deleteRecord recordId s) = True \<and>
      map_of (records (snd (deleteRecord recordId s))) recordId = None \<and>
      map_of (ttlMap (snd (deleteRecord recordId s))) recordId = None) \<and>
   (map_of (records s) recordId = None \<longrightarrow> snd (deleteRecord recordId s) = s)"
  by (auto simp: deleteRecord_def map_of_delete_same split: option.splits)

theorem deleteRecord_fails_iff_absent_witness:
  "isRecordExpired 10 expired_store ''t'' \<and>
   map_of (records expired_store) ''t'' \<noteq> None \<and>
   fst (deleteRecord ''t'' expired_store) = True \<and>
   map_of (records (snd (deleteRecord ''t'' expired_store))) ''t'' = None \<and>
   map_of (ttlMap (snd (deleteRecord ''t'' expired_store))) ''t'' = None \<and>
   map_of (records expired_store) ''u'' = None \<and>
   fst (deleteRecord ''u'' expired_store) = False \<and>
   snd (deleteRecord ''u'' expired_store) = expired_store"
proof -
  have h1: "isRecordExpired 10 expired_store ''t''"
    by (simp add: isRecordExpired_def expired_store_def)
  have h2: "map_of (records expired_store) ''t'' \<noteq> None"
    by (simp add: expired_store_def)
  have h3: "map_of (records expired_store) ''u'' = None"
    by (simp add: expired_store_def)
  from deleteRecord_fails_iff_absent [of "''t''" expired_store]
    deleteRecord_fails_iff_absent [of "''u''" expired_store] h1 h2 h3
  show ?thesis
    by blast
qed

section \<open>Expiration\<close>

text \<open>
  Claim C7. A record whose TTL entry holds an instant at or before the clock reading is
  absent for every read: \<open>get\<close> finds no field, \<open>hasRecord\<close> is false, \<open>getFields\<close> is
  empty, and neither enumeration lists the id. The five reads are \<^verbatim>\<open>const\<close> member
  functions, here functions of the store that return no new store, so the order in
  which they are called has no influence.
\<close>

theorem expired_record_absent:
  assumes "map_of (ttlMap s) recordId = Some t" and "t \<le> now"
  shows "get now s recordId field = None \<and>
         hasRecord now s recordId = False \<and>
         getFields now s recordId = [] \<and>
         recordId \<notin> set (getAllRecordIds now s) \<and>
         recordId \<notin> set (getRecordsByFieldValue now s field val)"
proof -
  have e: "isRecordExpired now s recordId"
    using assms by (simp add: isRecordExpired_def)
  show ?thesis
    using e by (auto simp: get_def hasRecord_def getFields_def getAllRecordIds_def
        getRecordsByFieldValue_def)
qed

theorem expired_record_absent_witness:
  "map_of (ttlMap expired_store) ''t'' = Some 5 \<and> (5 :: int) \<le> 10 \<and>
   map_of (records expired_store) ''t'' = Some [(''d'', ''x'')] \<and>
   get 10 expired_store ''t'' ''d'' = None \<and>
   hasRecord 10 expired_store ''t'' = False \<and>
   getFields 10 expired_store ''t'' = [] \<and>
   ''t'' \<notin> set (getAllRecordIds 10 expired_store) \<and>
   ''t'' \<notin> set (getRecordsByFieldValue 10 expired_store ''d'' ''x'')"
proof -
  have h1: "map_of (ttlMap expired_store) ''t'' = Some 5"
    by (simp add: expired_store_def)
  have h2: "(5 :: int) \<le> 10"
    by simp
  have h3: "map_of (records expired_store) ''t'' = Some [(''d'', ''x'')]"
    by (simp add: expired_store_def)
  from expired_record_absent [OF h1 h2, of "''d''" "''x''"] h1 h2 h3 show ?thesis
    by blast
qed

section \<open>Filtering\<close>

text \<open>
  Claim C6. \<open>getRecordsByFieldValue\<close> returns, sorted and without repetition, exactly
  the ids of the records that have not expired and whose field \<open>f\<close> is present with the
  value \<open>v\<close>; a record without the field \<open>f\<close> has \<open>get\<close> equal to \<open>None\<close> and is left
  out. Strings are compared byte by byte, and the order is the lexicographic order of
  the bytes, as \<^verbatim>\<open>std::sort\<close> on \<^verbatim>\<open>std::string\<close> has it.
\<close>

theorem getRecordsByFieldValue_exact:
  assumes "wf_db s"
  shows "set (getRecordsByFieldValue now s f v) =
           {recordId. hasRecord now s recordId \<and> get now s recordId f = Some v} \<and>
         sorted (getRecordsByFieldValue now s f v) \<and>
         distinct (getRecordsByFieldValue now s f v)"
proof -
  from assms have d: "distinct (map fst (records s))"
    by (simp add: wf_db_def)
  have mem: "\<And>recordId fs. (recordId, fs) \<in> set (records s) \<longleftrightarrow> map_of (records s) recordId = Some fs"
    using d by (auto dest: map_of_SomeD)
  have "set (getRecordsByFieldValue now s f v) =
          {recordId. hasRecord now s recordId \<and> get now s recordId f = Some v}"
    by (auto simp: getRecordsByFieldValue_def hasRecord_def get_def mem split: option.splits)
       (force simp: mem)+
  moreover have "sorted (getRecordsByFieldValue now s f v)"
    by (simp add: getRecordsByFieldValue_def)
  moreover have "distinct (getRecordsByFieldValue now s f v)"
    using d by (simp add: getRecordsByFieldValue_def distinct_map_filter)
  ultimately show ?thesis by simp
qed

theorem getRecordsByFieldValue_exact_witness:
  "wf_db filter_store \<and>
   getRecordsByFieldValue 0 filter_store ''k'' ''v'' = [''a'', ''b''] \<and>
   set (getRecordsByFieldValue 0 filter_store ''k'' ''v'') =
     {recordId. hasRecord 0 filter_store recordId \<and> get 0 filter_store recordId ''k'' = Some ''v''} \<and>
   sorted (getRecordsByFieldValue 0 filter_store ''k'' ''v'') \<and>
   distinct (getRecordsByFieldValue 0 filter_store ''k'' ''v'')"
proof -
  have h: "wf_db filter_store"
    by code_simp
  have r: "getRecordsByFieldValue 0 filter_store ''k'' ''v'' = [''a'', ''b'']"
    by code_simp
  from getRecordsByFieldValue_exact [OF h, of 0 "''k''" "''v''"] h r show ?thesis
    by blast
qed

section \<open>The sweep\<close>

text \<open>
  What \<open>expireRecords\<close> does on a store with unique keys: it keeps, in their order,
  exactly the entries of the record table whose record has not expired and exactly the
  entries of the TTL table whose instant lies strictly after the clock reading; every
  entry with an instant at or before the reading is gone from both tables. The number
  returned is the number of ids with such a TTL entry. When every id of the TTL table
  is an id of the record table, this is the number of entries that left the record
  table.
\<close>

lemma expireRecords_purges_exactly:
  assumes "wf_db s"
  shows "records (snd (expireRecords now s)) =
           filter (\<lambda>(recordId, fs). \<not> isRecordExpired now s recordId) (records s) \<and>
         ttlMap (snd (expireRecords now s)) =
           filter (\<lambda>(recordId, t). now < t) (ttlMap s) \<and>
         (\<forall>recordId.
            map_of (records (snd (expireRecords now s))) recordId =
              (if isRecordExpired now s recordId then None else map_of (records s) recordId) \<and>
            map_of (ttlMap (snd (expireRecords now s))) recordId =
              (if isRecordExpired now s recordId then None else map_of (ttlMap s) recordId)) \<and>
         fst (expireRecords now s) = int (card {recordId. isRecordExpired now s recordId}) \<and>
         (fst ` set (ttlMap s) \<subseteq> fst ` set (records s) \<longrightarrow>
            fst (expireRecords now s) =
              int (length (records s)) - int (length (records (snd (expireRecords now s)))))"
proof -
  let ?E = "isRecordExpired now s"
  from assms have dt: "distinct (map fst (ttlMap s))" and dr: "distinct (map fst (records s))"
    by (simp_all add: wf_db_def)
  note u = expireRecords_unfold [OF assms, of now]
  have mem: "\<And>k t. (k, t) \<in> set (ttlMap s) \<longleftrightarrow> map_of (ttlMap s) k = Some t"
    using dt by simp
  have c1: "records (snd (expireRecords now s)) =
           filter (\<lambda>(recordId, fs). \<not> ?E recordId) (records s)"
    by (simp add: u case_prod_unfold)
  have "filter (\<lambda>p. \<not> ?E (fst p)) (ttlMap s) = filter (\<lambda>(recordId, t). now < t) (ttlMap s)"
    by (rule filter_cong) (auto simp: isRecordExpired_def mem)
  then have c2: "ttlMap (snd (expireRecords now s)) = filter (\<lambda>(recordId, t). now < t) (ttlMap s)"
    by (simp add: u)
  have c3: "map_of (records (snd (expireRecords now s))) recordId =
              (if ?E recordId then None else map_of (records s) recordId)" for recordId
    by (simp add: u map_of_filter [of "\<lambda>k. \<not> ?E k"] restrict_map_def)
  have c4: "map_of (ttlMap (snd (expireRecords now s))) recordId =
              (if ?E recordId then None else map_of (ttlMap s) recordId)" for recordId
    by (simp add: u map_of_filter [of "\<lambda>k. \<not> ?E k"] restrict_map_def)
  have keys: "{k \<in> fst ` set (ttlMap s). ?E k} = {k. ?E k}"
    by (force simp: isRecordExpired_def image_iff split: option.splits dest: map_of_SomeD)
  have c5: "fst (expireRecords now s) = int (card {recordId. ?E recordId})"
    by (simp add: u length_filter_keys [OF dt] keys)
  have c6: "fst (expireRecords now s) =
              int (length (records s)) - int (length (records (snd (expireRecords now s))))"
    if sub: "fst ` set (ttlMap s) \<subseteq> fst ` set (records s)"
  proof -
    have "{k \<in> fst ` set (records s). ?E k} = {k. ?E k}"
      using sub keys by blast
    then have "length (filter (\<lambda>p. ?E (fst p)) (records s)) = card {k. ?E k}"
      by (simp add: length_filter_keys [OF dr])
    moreover have "length (filter (\<lambda>p. ?E (fst p)) (records s)) +
        length (filter (\<lambda>p. \<not> ?E (fst p)) (records s)) = length (records s)"
      by (rule sum_length_filter_compl)
    moreover have "length (records (snd (expireRecords now s))) =
        length (filter (\<lambda>p. \<not> ?E (fst p)) (records s))"
      by (simp add: u)
    ultimately show ?thesis
      unfolding c5 by linarith
  qed
  from c1 c2 c3 c4 c5 c6 show ?thesis by blast
qed

lemma expireRecords_sweep_store:
  "wf_db sweep_store \<and>
   fst ` set (ttlMap sweep_store) \<subseteq> fst ` set (records sweep_store) \<and>
   fst (expireRecords 10 sweep_store) = 1 \<and>
   records (snd (expireRecords 10 sweep_store)) = [(''b'', [(''g'', ''y'')]), (''c'', [(''h'', ''z'')])] \<and>
   ttlMap (snd (expireRecords 10 sweep_store)) = [(''b'', 20)]"
proof -
  have h: "wf_db sweep_store"
    by code_simp
  have sub: "fst ` set (ttlMap sweep_store) \<subseteq> fst ` set (records sweep_store)"
    by (simp add: sweep_store_def)
  have len: "length (records sweep_store) = 3"
    by (simp add: sweep_store_def)
  have ttl: "filter (\<lambda>(recordId, t). (10 :: int) < t) (ttlMap sweep_store) = [(''b'', 20)]"
    by (simp add: sweep_store_def)
  have recs: "filter (\<lambda>(recordId, fs). \<not> isRecordExpired 10 sweep_store recordId) (records sweep_store) =
     [(''b'', [(''g'', ''y'')]), (''c'', [(''h'', ''z'')])]"
    by (simp add: sweep_store_def isRecordExpired_def)
  note t = expireRecords_purges_exactly [OF h, of 10]
  from t recs have a: "records (snd (expireRecords 10 sweep_store)) =
      [(''b'', [(''g'', ''y'')]), (''c'', [(''h'', ''z'')])]"
    by simp
  from t ttl have b: "ttlMap (snd (expireRecords 10 sweep_store)) = [(''b'', 20)]"
    by simp
  from t sub have "fst (expireRecords 10 sweep_store) =
      int (length (records sweep_store)) - int (length (records (snd (expireRecords 10 sweep_store))))"
    by blast
  then have c: "fst (expireRecords 10 sweep_store) = 1"
    by (simp add: a len)
  from h sub a b c show ?thesis
    by blast
qed

section \<open>Restoring from malformed input\<close>

text \<open>
  Claim C2. A failed \<open>restore\<close> is to leave the store empty. On a snapshot that is
  cut off after its record section, \<^verbatim>\<open>std::getline\<close> fails where the TTL count is
  expected and \<open>restore\<close> leaves through \<^verbatim>\<open>return false\<close>; the handler that clears the
  tables is not reached, and the record read so far stays in the store, visible to
  \<open>getAllRecordIds\<close> and \<open>hasRecord\<close>.
\<close>

theorem restore_truncated_snapshot_keeps_records:
  "restore 0 truncated_snapshot empty_db =
     (False, \<lparr>records = [(''rec'', [(''f'', ''v'')])], ttlMap = []\<rparr>) \<and>
   getAllRecordIds 0 (snd (restore 0 truncated_snapshot empty_db)) = [''rec''] \<and>
   hasRecord 0 (snd (restore 0 truncated_snapshot empty_db)) ''rec'' = True"
  by code_simp

section \<open>setTTL and expired records\<close>

lemma setTTL_absent_record:
  "map_of (records s) recordId = None \<Longrightarrow> setTTL now recordId ttlSeconds s = s"
  by (simp add: setTTL_def)

lemma setTTL_present_record:
  "map_of (records s) recordId = Some fs \<Longrightarrow>
   setTTL now recordId ttlSeconds s =
     s\<lparr>ttlMap := AList.update recordId (now + seconds (sint ttlSeconds)) (ttlMap s)\<rparr>"
  by (simp add: setTTL_def)

text \<open>
  Claim C3. \<open>setTTL\<close> is to leave the store unchanged for a record that has expired
  and is still in the record table. \<open>setTTL\<close> looks the id up in the record table only
  and does not ask \<open>isRecordExpired\<close>: for the expired record \<open>t\<close> it writes a new
  expiration instant, and \<open>hasRecord\<close>, false before the call, is true after it.
\<close>

theorem setTTL_revives_expired_record:
  "map_of (records expired_store) ''t'' = Some [(''d'', ''x'')] \<and>
   isRecordExpired 10 expired_store ''t'' \<and>
   hasRecord 10 expired_store ''t'' = False \<and>
   setTTL 10 ''t'' 100 expired_store =
     \<lparr>records = [(''t'', [(''d'', ''x'')])], ttlMap = [(''t'', 100000000010)]\<rparr> \<and>
   setTTL 10 ''t'' 100 expired_store \<noteq> expired_store \<and>
   hasRecord 10 (setTTL 10 ''t'' 100 expired_store) ''t'' = True"
  by code_simp

section \<open>TTL entries read by restore\<close>

text \<open>
  Claim C8. Every id of the TTL table is to be an id of the record table, unless its
  instant has passed. \<open>restore\<close> succeeds on a snapshot whose TTL section names an id
  that its record section does not carry, and stores the TTL entry: afterwards the TTL
  table holds \<open>ghost\<close> with an instant in the future and the record table is empty.
\<close>

theorem restore_accepts_ttl_without_record:
  "restore 0 ghost_snapshot empty_db =
     (True, \<lparr>records = [], ttlMap = [(''ghost'', 100000000000)]\<rparr>) \<and>
   map_of (ttlMap (snd (restore 0 ghost_snapshot empty_db))) ''ghost'' = Some 100000000000 \<and>
   map_of (records (snd (restore 0 ghost_snapshot empty_db))) ''ghost'' = None \<and>
   isRecordExpired 0 (snd (restore 0 ghost_snapshot empty_db)) ''ghost'' = False"
  by code_simp

section \<open>The count of the sweep\<close>

text \<open>
  Claim C9. \<open>expireRecords\<close> is to return the number of records it purged. It counts
  the expired entries of the TTL table instead, and \<open>restore\<close> can leave a TTL entry
  whose id has no record: after \<open>restore\<close> of a snapshot with no record and one TTL
  pair that has already expired, the record table is empty, and \<open>expireRecords\<close>
  returns 1 although no record was there to purge.
\<close>

theorem expireRecords_counts_ttl_without_record:
  "restore 0 expired_ghost_snapshot empty_db =
     (True, \<lparr>records = [], ttlMap = [(''ghost'', - 5000000000)]\<rparr>) \<and>
   wf_db (snd (restore 0 expired_ghost_snapshot empty_db)) \<and>
   records (snd (restore 0 expired_ghost_snapshot empty_db)) = [] \<and>
   getAllRecordIds 0 (snd (restore 0 expired_ghost_snapshot empty_db)) = [] \<and>
   expireRecords 0 (snd (restore 0 expired_ghost_snapshot empty_db)) =
     (1, \<lparr>records = [], ttlMap = []\<rparr>)"
  by code_simp

section \<open>Input after the TTL section\<close>

lemma getline_rest_suffix:
  assumes "getline r = Some (l, r')" and "r' \<noteq> []"
  shows "last r' = last r"
proof -
  from assms have r': "r' = drop 1 (dropWhile (\<lambda>c. c \<noteq> endl) r)"
    by (auto simp: getline_def split: if_splits)
  have "r = takeWhile (\<lambda>c. c \<noteq> endl) r @ take 1 (dropWhile (\<lambda>c. c \<noteq> endl) r) @ r'"
    unfolding r' by simp
  then obtain p where "r = p @ r'"
    by (metis append.assoc)
  with assms(2) show ?thesis by simp
qed

lemma getline_extended:
  assumes g: "getline r = Some (l, r')" and ext: "extended_by_lines r x"
  shows "\<exists>x'. getline x = Some (l, x') \<and> extended_by_lines r' x'"
proof -
  let ?P = "\<lambda>c. c \<noteq> endl"
  from g have ne: "r \<noteq> []" and l: "l = takeWhile ?P r" and r': "r' = drop 1 (dropWhile ?P r)"
    by (auto simp: getline_def split: if_splits)
  from ext ne obtain e where x: "x = r @ e" and b: "last r = endl \<or> (e \<noteq> [] \<and> hd e = endl)"
    by (auto simp: extended_by_lines_def)
  show ?thesis
  proof (cases "endl \<in> set r")
    case True
    then have tw: "takeWhile ?P (r @ e) = takeWhile ?P r"
      by (simp add: takeWhile_append1)
    from True have dw: "dropWhile ?P (r @ e) = dropWhile ?P r @ e"
      by (simp add: dropWhile_append1)
    from True have "dropWhile ?P r \<noteq> []"
      by auto
    then have dr: "drop 1 (dropWhile ?P r @ e) = r' @ e"
      by (cases "dropWhile ?P r") (simp_all add: r')
    have "getline (r @ e) = Some (takeWhile ?P (r @ e), drop 1 (dropWhile ?P (r @ e)))"
      using ne by (simp add: getline_def)
    then have gx: "getline x = Some (l, r' @ e)"
      by (simp only: x tw dw dr l)
    have "extended_by_lines r' (r' @ e)"
    proof (cases "r' = []")
      case True
      then show ?thesis by (simp add: extended_by_lines_def)
    next
      case False
      with g have "last r' = last r" by (rule getline_rest_suffix)
      with b show ?thesis by (auto simp: extended_by_lines_def)
    qed
    with gx show ?thesis by blast
  next
    case False
    with ne have "last r \<noteq> endl"
      using last_in_set by metis
    with b have e: "e \<noteq> []" "hd e = endl" by simp_all
    from False have all: "\<And>c. c \<in> set r \<Longrightarrow> c \<noteq> endl"
      by blast
    have tw: "takeWhile ?P (r @ e) = r"
      using e by (cases e) (simp_all add: takeWhile_append2 [OF all])
    have dw: "dropWhile ?P (r @ e) = e"
      using e by (cases e) (simp_all add: dropWhile_append2 [OF all])
    from all have dw0: "dropWhile ?P r = []" and tw0: "takeWhile ?P r = r"
      by simp_all
    have "r' = []" and "l = r"
      unfolding r' l dw0 tw0 by simp_all
    moreover have "getline (r @ e) = Some (takeWhile ?P (r @ e), drop 1 (dropWhile ?P (r @ e)))"
      using ne by (simp add: getline_def)
    ultimately have "getline x = Some (l, tl e)" "extended_by_lines r' (tl e)"
      by (simp_all only: x tw dw drop_Suc drop_0 One_nat_def) (simp add: extended_by_lines_def)
    then show ?thesis by blast
  qed
qed

lemma read_fields_extended:
  assumes "read_fields n recordId r recs = Ok (r', recs')" and "extended_by_lines r x"
  shows "\<exists>x'. read_fields n recordId x recs = Ok (x', recs') \<and> extended_by_lines r' x'"
  using assms
proof (induction n arbitrary: r x recs)
  case 0
  then show ?case by auto
next
  case (Suc n)
  from Suc.prems(1) obtain field r1 val r2 where
    g1: "getline r = Some (field, r1)" and g2: "getline r1 = Some (val, r2)" and
    rest: "read_fields n recordId r2 (assign_field recordId field val recs) = Ok (r', recs')"
    by (auto split: option.splits)
  from getline_extended [OF g1 Suc.prems(2)] obtain x1 where
    h1: "getline x = Some (field, x1)" "extended_by_lines r1 x1" by blast
  from getline_extended [OF g2 h1(2)] obtain x2 where
    h2: "getline x1 = Some (val, x2)" "extended_by_lines r2 x2" by blast
  from Suc.IH [OF rest h2(2)] h1(1) h2(1) show ?case
    by simp
qed

lemma read_records_extended:
  assumes "read_records n r recs = Ok (r', recs')" and "extended_by_lines r x"
  shows "\<exists>x'. read_records n x recs = Ok (x', recs') \<and> extended_by_lines r' x'"
  using assms
proof (induction n arbitrary: r x recs)
  case 0
  then show ?case by auto
next
  case (Suc n)
  from Suc.prems(1) obtain recordId r1 line r2 fieldCount r3 recs1 where
    g1: "getline r = Some (recordId, r1)" and g2: "getline r1 = Some (line, r2)" and
    st: "stoi line = Inr fieldCount" and
    fl: "read_fields (nat fieldCount) recordId r2 recs = Ok (r3, recs1)" and
    rest: "read_records n r3 recs1 = Ok (r', recs')"
    by (auto split: option.splits sum.splits parse.splits)
  from getline_extended [OF g1 Suc.prems(2)] obtain x1 where
    h1: "getline x = Some (recordId, x1)" "extended_by_lines r1 x1" by blast
  from getline_extended [OF g2 h1(2)] obtain x2 where
    h2: "getline x1 = Some (line, x2)" "extended_by_lines r2 x2" by blast
  from read_fields_extended [OF fl h2(2)] obtain x3 where
    h3: "read_fields (nat fieldCount) recordId x2 recs = Ok (x3, recs1)" "extended_by_lines r3 x3"
    by blast
  from Suc.IH [OF rest h3(2)] h1(1) h2(1) st h3(1) show ?case
    by simp
qed

lemma read_ttls_extended:
  assumes "read_ttls now n r ttls = Ok (r', ttls')" and "extended_by_lines r x"
  shows "\<exists>x'. read_ttls now n x ttls = Ok (x', ttls') \<and> extended_by_lines r' x'"
  using assms
proof (induction n arbitrary: r x ttls)
  case 0
  then show ?case by auto
next
  case (Suc n)
  from Suc.prems(1) obtain recordId r1 line r2 ttlSeconds where
    g1: "getline r = Some (recordId, r1)" and g2: "getline r1 = Some (line, r2)" and
    st: "stoi line = Inr ttlSeconds" and
    rest: "read_ttls now n r2 (AList.update recordId (now + seconds ttlSeconds) ttls) = Ok (r', ttls')"
    by (auto split: option.splits sum.splits)
  from getline_extended [OF g1 Suc.prems(2)] obtain x1 where
    h1: "getline x = Some (recordId, x1)" "extended_by_lines r1 x1" by blast
  from getline_extended [OF g2 h1(2)] obtain x2 where
    h2: "getline x1 = Some (line, x2)" "extended_by_lines r2 x2" by blast
  from Suc.IH [OF rest h2(2)] h1(1) h2(1) st show ?case
    by simp
qed

text \<open>
  Claim C10. When \<open>restore\<close> succeeds on a snapshot, it succeeds with the same store on
  the snapshot followed by any further lines: nothing after the last TTL pair is read.
  The further text has to start on a line of its own, that is, the snapshot ends with
  a newline (as every snapshot written by \<open>backup\<close> does) or the text begins with one;
  otherwise it would lengthen the last line of the snapshot.
\<close>

theorem restore_ignores_trailing_lines:
  assumes ok: "restore now snapshot s = (True, d)"
    and boundary: "last snapshot = endl \<or> (extra \<noteq> [] \<and> hd extra = endl)"
  shows "restore now (snapshot @ extra) s' = (True, d)"
proof -
  have e0: "extended_by_lines snapshot (snapshot @ extra)"
    using boundary by (auto simp: extended_by_lines_def)
  from ok obtain line r1 recordCount r2 recs line2 r3 ttlCount r4 ttls where
    g1: "getline snapshot = Some (line, r1)" and s1: "stoi line = Inr recordCount" and
    rr: "read_records (nat recordCount) r1 [] = Ok (r2, recs)" and
    g2: "getline r2 = Some (line2, r3)" and s2: "stoi line2 = Inr ttlCount" and
    rt: "read_ttls now (nat ttlCount) r3 [] = Ok (r4, ttls)" and
    d: "d = \<lparr>records = recs, ttlMap = ttls\<rparr>"
    by (auto simp: restore_def split: option.splits sum.splits parse.splits)
  from getline_extended [OF g1 e0] obtain x1 where
    h1: "getline (snapshot @ extra) = Some (line, x1)" "extended_by_lines r1 x1" by blast
  from read_records_extended [OF rr h1(2)] obtain x2 where
    h2: "read_records (nat recordCount) x1 [] = Ok (x2, recs)" "extended_by_lines r2 x2" by blast
  from getline_extended [OF g2 h2(2)] obtain x3 where
    h3: "getline x2 = Some (line2, x3)" "extended_by_lines r3 x3" by blast
  from read_ttls_extended [OF rt h3(2)] obtain x4 where
    h4: "read_ttls now (nat ttlCount) x3 [] = Ok (x4, ttls)" by blast
  show ?thesis
    by (simp add: restore_def h1(1) s1 h2(1) h3(1) s2 h4 d)
qed

theorem restore_ignores_trailing_lines_witness:
  "restore 0 complete_snapshot empty_db =
     (True, \<lparr>records = [(''a'', [(''f'', ''x'')])], ttlMap = []\<rparr>) \<and>
   last complete_snapshot = endl \<and>
   restore 0 (complete_snapshot @ trailing_lines) empty_db =
     (True, \<lparr>records = [(''a'', [(''f'', ''x'')])], ttlMap = []\<rparr>)"
proof -
  have h1: "restore 0 complete_snapshot empty_db =
     (True, \<lparr>records = [(''a'', [(''f'', ''x'')])], ttlMap = []\<rparr>)"
    by code_simp
  have h2: "last complete_snapshot = endl"
    by code_simp
  from restore_ignores_trailing_lines [OF h1 disjI1 [OF h2], of trailing_lines empty_db] h1 h2
  show ?thesis
    by blast
qed

section \<open>Decimal numbers are read back\<close>

lemma of_char_digit_char: "d < 10 \<Longrightarrow> (of_char (digit_char d) :: nat) = 48 + d"
  by (simp add: digit_char_def)

lemma isdigit_digit_char: "d < 10 \<Longrightarrow> isdigit (digit_char d)"
  by (simp add: isdigit_def of_char_digit_char)

lemma isdigit_not_isspace: "isdigit c \<Longrightarrow> \<not> isspace c"
  by (auto simp: isdigit_def isspace_def)

lemma isdigit_not_sign: "isdigit c \<Longrightarrow> c \<noteq> CHR ''-'' \<and> c \<noteq> CHR ''+''"
  by (auto simp: isdigit_def)

lemma isdigit_not_endl: "isdigit c \<Longrightarrow> c \<noteq> endl"
  by (auto simp: isdigit_def endl_def)

lemma show_nat_digits: "c \<in> set (show_nat n) \<Longrightarrow> isdigit c"
proof (induction n rule: show_nat.induct)
  case (1 n)
  show ?case
  proof (cases "n < 10")
    case True
    with "1.prems" show ?thesis
      by (simp add: show_nat.simps [of n] isdigit_digit_char)
  next
    case False
    with "1.prems" "1.IH" show ?thesis
      by (auto simp: show_nat.simps [of n] isdigit_digit_char)
  qed
qed

lemma show_nat_nonempty: "show_nat n \<noteq> []"
  by (simp add: show_nat.simps [of n])

lemma digits_value_snoc:
  "digits_value (ds @ [c]) = 10 * digits_value ds + (int (of_char c) - 48)"
  by (simp add: digits_value_def)

lemma digits_value_show_nat: "digits_value (show_nat n) = int n"
proof (induction n rule: show_nat.induct)
  case (1 n)
  show ?case
  proof (cases "n < 10")
    case True
    then show ?thesis
      by (simp add: show_nat.simps [of n] digits_value_def of_char_digit_char)
  next
    case False
    then have "digits_value (show_nat n) = 10 * int (n div 10) + int (n mod 10)"
      using "1.IH" by (simp add: show_nat.simps [of n] digits_value_snoc of_char_digit_char)
    then show ?thesis
      by (simp add: of_nat_div of_nat_mod)
  qed
qed

lemma stoi_show_nat:
  assumes "n \<le> 2147483647"
  shows "stoi (show_nat n) = Inr (int n)"
proof -
  obtain c cs where cs: "show_nat n = c # cs"
    using show_nat_nonempty [of n] by (cases "show_nat n") auto
  have dig: "\<And>x. x \<in> set (show_nat n) \<Longrightarrow> isdigit x"
    by (rule show_nat_digits)
  then have c: "isdigit c"
    by (simp add: cs)
  have dw: "dropWhile isspace (show_nat n) = show_nat n"
    using c by (simp add: cs isdigit_not_isspace)
  have tw: "takeWhile isdigit (show_nat n) = show_nat n"
    using dig by (simp add: takeWhile_eq_all_conv)
  have hd: "hd (show_nat n) \<noteq> CHR ''-''" "hd (show_nat n) \<noteq> CHR ''+''"
    using c isdigit_not_sign [of c] by (simp_all add: cs)
  show ?thesis
    using assms
    by (simp add: stoi_def Let_def dw hd tw show_nat_nonempty digits_value_show_nat)
qed

lemma show_nat_no_endl: "endl \<notin> set (show_nat n)"
  using show_nat_digits isdigit_not_endl by blast

lemma show_int_nonneg: "0 \<le> i \<Longrightarrow> show_int i = show_nat (nat i)"
  by (simp add: show_int_def)

section \<open>Reading back what backup wrote\<close>

lemma getline_line:
  assumes "endl \<notin> set l"
  shows "getline (l @ endl # rest) = Some (l, rest)"
proof -
  from assms have all: "\<And>c. c \<in> set l \<Longrightarrow> c \<noteq> endl"
    by blast
  have "takeWhile (\<lambda>c. c \<noteq> endl) (l @ endl # rest) = l"
    by (simp add: takeWhile_append2 [OF all])
  moreover have "dropWhile (\<lambda>c. c \<noteq> endl) (l @ endl # rest) = endl # rest"
    by (simp add: dropWhile_append2 [OF all])
  ultimately show ?thesis
    by (simp add: getline_def)
qed

lemma update_fresh: "k \<notin> fst ` set al \<Longrightarrow> AList.update k v al = al @ [(k, v)]"
  by (induction al) auto

lemma update_last_entry: "k \<notin> fst ` set al \<Longrightarrow> AList.update k v (al @ [(k, w)]) = al @ [(k, v)]"
  by (induction al) auto

lemma map_of_last_entry: "k \<notin> fst ` set al \<Longrightarrow> map_of (al @ [(k, w)]) k = Some w"
  by (induction al) auto

lemma assign_field_fresh:
  assumes "recordId \<notin> fst ` set recs"
  shows "assign_field recordId f v recs = recs @ [(recordId, [(f, v)])]"
proof -
  from assms have "map_of recs recordId = None"
    by (simp add: map_of_eq_None_iff)
  then show ?thesis
    by (simp add: assign_field_def update_fresh [OF assms])
qed

lemma assign_field_last:
  assumes "recordId \<notin> fst ` set recs" and "f \<notin> fst ` set fs"
  shows "assign_field recordId f v (recs @ [(recordId, fs)]) = recs @ [(recordId, fs @ [(f, v)])]"
proof -
  have m: "map_of (recs @ [(recordId, fs)]) recordId = Some fs"
    using assms(1) by (rule map_of_last_entry)
  show ?thesis
    unfolding assign_field_def m
    by (simp add: update_last_entry [OF assms(1)] update_fresh [OF assms(2)])
qed

lemma fold_assign_field_last:
  assumes "recordId \<notin> fst ` set recs" and "distinct (map fst (fs0 @ fs))"
  shows "fold (\<lambda>(f, v). assign_field recordId f v) fs (recs @ [(recordId, fs0)]) =
           recs @ [(recordId, fs0 @ fs)]"
  using assms(2)
proof (induction fs arbitrary: fs0)
  case Nil
  show ?case by simp
next
  case (Cons p fs)
  obtain f v where p: "p = (f, v)" by (cases p)
  from Cons.prems have fresh: "f \<notin> fst ` set fs0" and d: "distinct (map fst ((fs0 @ [(f, v)]) @ fs))"
    by (auto simp: p)
  show ?case
    using Cons.IH [OF d] by (simp add: p assign_field_last [OF assms(1) fresh])
qed

lemma fold_assign_field_fresh:
  assumes "recordId \<notin> fst ` set recs" and "distinct (map fst fs)" and "fs \<noteq> []"
  shows "fold (\<lambda>(f, v). assign_field recordId f v) fs recs = recs @ [(recordId, fs)]"
proof -
  from assms(3) obtain p fs' where fs: "fs = p # fs'" by (cases fs) auto
  obtain f v where p: "p = (f, v)" by (cases p)
  from assms(2) have d: "distinct (map fst ([(f, v)] @ fs'))"
    by (simp add: fs p)
  show ?thesis
    using fold_assign_field_last [OF assms(1) d]
    by (simp add: fs p assign_field_fresh [OF assms(1)])
qed

lemma read_fields_encoded:
  assumes "list_all (\<lambda>(f, v). no_newline f \<and> no_newline v) fs"
  shows "read_fields (length fs) recordId (encode_fields fs @ rest) recs =
           Ok (rest, fold (\<lambda>(f, v). assign_field recordId f v) fs recs)"
  using assms
proof (induction fs arbitrary: recs)
  case Nil
  show ?case by (simp add: encode_fields_def)
next
  case (Cons p fs)
  obtain f v where p: "p = (f, v)" by (cases p)
  from Cons.prems have nf: "endl \<notin> set f" and nv: "endl \<notin> set v"
    and rest: "list_all (\<lambda>(f, v). no_newline f \<and> no_newline v) fs"
    by (simp_all add: p no_newline_def)
  have enc: "encode_fields (p # fs) @ rest = f @ endl # (v @ endl # (encode_fields fs @ rest))"
    by (simp add: encode_fields_def p)
  have "read_fields (length (p # fs)) recordId (encode_fields (p # fs) @ rest) recs =
      read_fields (length fs) recordId (encode_fields fs @ rest) (assign_field recordId f v recs)"
    unfolding enc by (simp add: getline_line [OF nf] getline_line [OF nv])
  then show ?case
    by (simp add: Cons.IH [OF rest] p)
qed

lemma read_records_encoded:
  assumes "distinct (map fst es)" and "fst ` set es \<inter> fst ` set acc = {}"
    and "list_all record_ready es"
  shows "read_records (length es) (concat (map encode_record es) @ rest) acc = Ok (rest, acc @ es)"
  using assms
proof (induction es arbitrary: acc)
  case Nil
  show ?case by simp
next
  case (Cons e es)
  obtain recordId fs where e: "e = (recordId, fs)" by (cases e)
  from Cons.prems(3) have nr: "endl \<notin> set recordId" and ne: "fs \<noteq> []"
    and df: "distinct (map fst fs)" and len: "length fs \<le> 2147483647"
    and nf: "list_all (\<lambda>(f, v). no_newline f \<and> no_newline v) fs"
    and rest_ready: "list_all record_ready es"
    by (simp_all add: e record_ready_def record_inv_def no_newline_def)
  from Cons.prems(2) have fresh: "recordId \<notin> fst ` set acc"
    by (auto simp: e)
  from Cons.prems(1,2) have d: "distinct (map fst es)"
    and disj: "fst ` set es \<inter> fst ` set (acc @ [(recordId, fs)]) = {}"
    by (auto simp: e)
  have enc: "concat (map encode_record (e # es)) @ rest =
      recordId @ endl # (show_nat (length fs) @ endl #
        (encode_fields fs @ (concat (map encode_record es) @ rest)))"
    by (simp add: e encode_record_def)
  have "read_records (length (e # es)) (concat (map encode_record (e # es)) @ rest) acc =
      read_records (length es) (concat (map encode_record es) @ rest) (acc @ [(recordId, fs)])"
    unfolding enc
    by (simp add: getline_line [OF nr] getline_line [OF show_nat_no_endl] stoi_show_nat [OF len]
        read_fields_encoded [OF nf] fold_assign_field_fresh [OF fresh df ne])
  then show ?case
    by (simp add: Cons.IH [OF d disj rest_ready] e)
qed

lemma read_ttls_encoded:
  assumes "distinct (map fst ts)" and "fst ` set ts \<inter> fst ` set acc = {}"
    and "list_all ttl_ready ts"
  shows "read_ttls now (length ts) (concat (map encode_ttl ts) @ rest) acc =
           Ok (rest, acc @ map (\<lambda>(recordId, n). (recordId, now + seconds n)) ts)"
  using assms
proof (induction ts arbitrary: acc)
  case Nil
  show ?case by simp
next
  case (Cons e ts)
  obtain recordId n where e: "e = (recordId, n)" by (cases e)
  from Cons.prems(3) have nr: "endl \<notin> set recordId" and n0: "0 \<le> n" and n1: "n \<le> 2147483647"
    and rest_ready: "list_all ttl_ready ts"
    by (simp_all add: e ttl_ready_def no_newline_def)
  from Cons.prems(2) have fresh: "recordId \<notin> fst ` set acc"
    by (auto simp: e)
  from Cons.prems(1,2) have d: "distinct (map fst ts)"
    and disj: "fst ` set ts \<inter> fst ` set (acc @ [(recordId, now + seconds n)]) = {}"
    by (auto simp: e)
  from n0 n1 have st: "stoi (show_int n) = Inr n"
    using stoi_show_nat [of "nat n"] by (simp add: show_int_nonneg)
  have nl: "endl \<notin> set (show_int n)"
    using n0 by (simp add: show_int_nonneg show_nat_no_endl)
  have enc: "concat (map encode_ttl (e # ts)) @ rest =
      recordId @ endl # (show_int n @ endl # (concat (map encode_ttl ts) @ rest))"
    by (simp add: e encode_ttl_def)
  have "read_ttls now (length (e # ts)) (concat (map encode_ttl (e # ts)) @ rest) acc =
      read_ttls now (length ts) (concat (map encode_ttl ts) @ rest) (acc @ [(recordId, now + seconds n)])"
    unfolding enc
    by (simp add: getline_line [OF nr] getline_line [OF nl] st update_fresh [OF fresh])
  then show ?case
    by (simp add: Cons.IH [OF d disj rest_ready] e)
qed

lemma static_cast_int_id: "0 \<le> c \<Longrightarrow> c \<le> 2147483647 \<Longrightarrow> static_cast_int c = c"
  by (simp add: static_cast_int_def)

lemma duration_cast_seconds_bound:
  assumes "d \<le> seconds 2147483647"
  shows "duration_cast_seconds d \<le> 2147483647"
proof (cases "0 \<le> d")
  case True
  have "d div ticks_per_second \<le> (2147483647 * ticks_per_second) div ticks_per_second"
    using assms by (intro zdiv_mono1) (simp_all add: seconds_def ticks_per_second_def)
  then show ?thesis
    using True by (simp add: duration_cast_seconds_def ticks_per_second_def)
next
  case False
  then have "0 \<le> (- d) div ticks_per_second"
    by (simp add: ticks_per_second_def pos_imp_zdiv_nonneg_iff)
  with False show ?thesis
    by (simp add: duration_cast_seconds_def)
qed

lemma validTTLs_entries:
  assumes "list_all (\<lambda>(recordId, t). t \<le> now + seconds 2147483647) (ttlMap s)"
    and "(recordId, n) \<in> set (validTTLs now s ids)"
  shows "recordId \<in> set ids \<and> 0 < n \<and> n \<le> 2147483647"
proof -
  from assms(2) have "recordId \<in> set ids \<and> (\<exists>t. map_of (ttlMap s) recordId = Some t \<and>
      0 < duration_cast_seconds (t - now) \<and> n = static_cast_int (duration_cast_seconds (t - now)))"
    by (auto simp: validTTLs_def Let_def split: option.splits if_splits) metis
  then obtain t where rid: "recordId \<in> set ids"
    and t: "map_of (ttlMap s) recordId = Some t"
    and pos: "0 < duration_cast_seconds (t - now)"
    and n: "n = static_cast_int (duration_cast_seconds (t - now))"
    by blast
  from t have "(recordId, t) \<in> set (ttlMap s)"
    by (rule map_of_SomeD)
  with assms(1) have "t - now \<le> seconds 2147483647"
    by (auto simp: list_all_iff)
  then have "duration_cast_seconds (t - now) \<le> 2147483647"
    by (rule duration_cast_seconds_bound)
  with pos have "n = duration_cast_seconds (t - now)"
    by (simp add: n static_cast_int_id)
  with rid pos \<open>duration_cast_seconds (t - now) \<le> 2147483647\<close> show ?thesis
    by simp
qed

lemma validTTLs_keys: "map fst (validTTLs now s ids) =
    filter (\<lambda>recordId. \<exists>t. map_of (ttlMap s) recordId = Some t \<and> 0 < duration_cast_seconds (t - now)) ids"
  by (induction ids) (auto simp: validTTLs_def Let_def split: option.splits)

lemma validTTLs_distinct: "distinct ids \<Longrightarrow> distinct (map fst (validTTLs now s ids))"
  by (simp add: validTTLs_keys)

lemma validTTLs_length: "length (validTTLs now s ids) \<le> length ids"
proof -
  have "length (map fst (validTTLs now s ids)) \<le> length ids"
    unfolding validTTLs_keys by (rule length_filter_le)
  then show ?thesis by simp
qed

lemma backup_record_encode:
  "backup_record recs = (\<lambda>recordId. encode_record (recordId, at_record recs recordId))"
  by (rule ext) (simp add: backup_record_def encode_record_def encode_fields_def Let_def)

lemma at_record_entries:
  assumes "distinct (map fst recs)"
  shows "map (\<lambda>recordId. (recordId, at_record recs recordId)) (filter P (map fst recs)) =
           filter (\<lambda>(recordId, fs). P recordId) recs"
proof -
  have "map (\<lambda>recordId. (recordId, at_record recs recordId)) (filter P (map fst recs)) =
      map (\<lambda>p. (fst p, at_record recs (fst p))) (filter (\<lambda>p. P (fst p)) recs)"
    by (simp add: filter_map comp_def)
  also have "\<dots> = filter (\<lambda>p. P (fst p)) recs"
  proof (rule map_idI)
    fix p assume "p \<in> set (filter (\<lambda>p. P (fst p)) recs)"
    then have "p \<in> set recs" by simp
    then have "map_of recs (fst p) = Some (snd p)"
      by (metis map_of_eq_Some_iff assms prod.collapse)
    then show "(fst p, at_record recs (fst p)) = p"
      by (simp add: at_record_def)
  qed
  finally show ?thesis
    by (simp add: case_prod_unfold)
qed

lemma restore_backup:
  assumes "round_trip_ready now s"
  shows "restore now' (backup now s) s0 =
     (True,
      \<lparr>records = filter (\<lambda>(recordId, fs). \<not> isRecordExpired now s recordId) (records s),
       ttlMap = map (\<lambda>(recordId, n). (recordId, now' + seconds n))
         (validTTLs now s
            (filter (\<lambda>recordId. \<not> isRecordExpired now s recordId) (map fst (records s))))\<rparr>)"
proof -
  let ?valid = "filter (\<lambda>recordId. \<not> isRecordExpired now s recordId) (map fst (records s))"
  let ?es = "filter (\<lambda>(recordId, fs). \<not> isRecordExpired now s recordId) (records s)"
  let ?ts = "validTTLs now s ?valid"
  from assms have d: "distinct (map fst (records s))" and ready: "list_all record_ready (records s)"
    and len: "length (records s) \<le> 2147483647"
    and bound: "list_all (\<lambda>(recordId, t). t \<le> now + seconds 2147483647) (ttlMap s)"
    by (simp_all add: round_trip_ready_def)
  have es: "map (\<lambda>recordId. (recordId, at_record (records s) recordId)) ?valid = ?es"
    using d by (rule at_record_entries)
  have keys: "map fst ?es = ?valid"
    by (simp add: filter_map comp_def case_prod_unfold)
  have len_es: "length ?valid = length ?es"
    using keys by (metis length_map)
  have recs_text: "concat (map (backup_record (records s)) ?valid) = concat (map encode_record ?es)"
    unfolding es [symmetric] by (simp add: backup_record_encode comp_def)
  have snap: "backup now s =
      show_nat (length ?es) @ endl # (concat (map encode_record ?es) @
        (show_nat (length ?ts) @ endl # (concat (map encode_ttl ?ts) @ [])))"
  proof -
    have "backup now s =
        show_nat (length ?valid) @ [endl] @ concat (map (backup_record (records s)) ?valid) @
        show_nat (length ?ts) @ [endl] @
        concat (map (\<lambda>(recordId, n). recordId @ [endl] @ show_int n @ [endl]) ?ts)"
      by (simp only: backup_def Let_def)
    also have "(\<lambda>(recordId, n). recordId @ [endl] @ show_int n @ [endl]) = encode_ttl"
      by (simp add: encode_ttl_def)
    finally show ?thesis
      unfolding recs_text len_es by simp
  qed
  have d_es: "distinct (map fst ?es)"
    using d by (simp add: distinct_map_filter)
  have ready_es: "list_all record_ready ?es"
    using ready by (simp add: list_all_iff)
  have n_es: "length ?es \<le> 2147483647"
    using len length_filter_le [of _ "records s"] by (meson order_trans)
  have d_ts: "distinct (map fst ?ts)"
    using d by (intro validTTLs_distinct distinct_filter)
  have n_ts: "length ?ts \<le> 2147483647"
    using validTTLs_length [of now s ?valid] n_es len_es by linarith
  have no_nl: "no_newline recordId" if "recordId \<in> set ?valid" for recordId
  proof -
    from that obtain fs where "(recordId, fs) \<in> set (records s)" by auto
    with ready show ?thesis by (auto simp: list_all_iff record_ready_def record_inv_def)
  qed
  have ready_ts: "list_all ttl_ready ?ts"
    unfolding list_all_iff
  proof
    fix e assume e: "e \<in> set ?ts"
    obtain recordId n where p: "e = (recordId, n)" by (cases e)
    from validTTLs_entries [OF bound] e p
    have "recordId \<in> set ?valid \<and> 0 < n \<and> n \<le> 2147483647" by blast
    with no_nl show "ttl_ready e" by (simp add: p ttl_ready_def)
  qed
  have r1: "read_records (length ?es) (concat (map encode_record ?es) @
        (show_nat (length ?ts) @ endl # (concat (map encode_ttl ?ts) @ []))) [] =
      Ok (show_nat (length ?ts) @ endl # (concat (map encode_ttl ?ts) @ []), ?es)"
    using read_records_encoded [OF d_es _ ready_es, where acc = "[]"] by simp
  have r2: "read_ttls now' (length ?ts) (concat (map encode_ttl ?ts) @ []) [] =
      Ok ([], map (\<lambda>(recordId, n). (recordId, now' + seconds n)) ?ts)"
    using read_ttls_encoded [OF d_ts _ ready_ts, where acc = "[]" and rest = "[]" and now = now']
    by simp
  show ?thesis
    unfolding restore_def snap
    by (simp only: getline_line [OF show_nat_no_endl] stoi_show_nat [OF n_es] stoi_show_nat [OF n_ts]
        nat_int r1 r2 option.case sum.case parse.case prod.case)
qed

section \<open>The round trip\<close>

lemma isRecordExpiredE:
  assumes "isRecordExpired now s recordId"
  obtains t where "map_of (ttlMap s) recordId = Some t" and "t \<le> now"
  using assms by (auto simp: isRecordExpired_def split: option.splits)

lemma restored_ttls_live:
  assumes "list_all (\<lambda>(recordId, t). t \<le> now + seconds 2147483647) (ttlMap s)"
  shows "map_of (map (\<lambda>(recordId, n). (recordId, now' + seconds n)) (validTTLs now s ids)) recordId = Some t
     \<Longrightarrow> now' < t"
proof -
  assume "map_of (map (\<lambda>(recordId, n). (recordId, now' + seconds n)) (validTTLs now s ids)) recordId = Some t"
  then have "(recordId, t) \<in> set (map (\<lambda>(recordId, n). (recordId, now' + seconds n)) (validTTLs now s ids))"
    by (rule map_of_SomeD)
  then obtain n where "(recordId, n) \<in> set (validTTLs now s ids)" and t: "t = now' + seconds n"
    by auto
  with validTTLs_entries [OF assms] have "0 < n"
    by blast
  then show "now' < t"
    by (simp add: t seconds_def ticks_per_second_def)
qed

text \<open>
  The snapshot is taken at the clock reading \<open>now\<close> and restored at any reading \<open>now'\<close>:
  the reads of the restored store at \<open>now'\<close> are the reads of the store at \<open>now\<close>.
\<close>

lemma round_trip_state:
  assumes "round_trip_ready now s"
  shows "fst (restore now' (backup now s) s0) = True \<and>
         (\<forall>recordId field.
            get now' (snd (restore now' (backup now s) s0)) recordId field = get now s recordId field) \<and>
         (\<forall>recordId.
            getFields now' (snd (restore now' (backup now s) s0)) recordId = getFields now s recordId \<and>
            hasRecord now' (snd (restore now' (backup now s) s0)) recordId = hasRecord now s recordId) \<and>
         getAllRecordIds now' (snd (restore now' (backup now s) s0)) = getAllRecordIds now s"
proof -
  let ?valid = "filter (\<lambda>recordId. \<not> isRecordExpired now s recordId) (map fst (records s))"
  let ?es = "filter (\<lambda>(recordId, fs). \<not> isRecordExpired now s recordId) (records s)"
  let ?ts = "map (\<lambda>(recordId, n). (recordId, now' + seconds n)) (validTTLs now s ?valid)"
  let ?s' = "\<lparr>records = ?es, ttlMap = ?ts\<rparr>"
  from assms have bound: "list_all (\<lambda>(recordId, t). t \<le> now + seconds 2147483647) (ttlMap s)"
    by (simp add: round_trip_ready_def)
  have r: "restore now' (backup now s) s0 = (True, ?s')"
    using assms by (rule restore_backup)
  have live: "\<not> isRecordExpired now' ?s' recordId" for recordId
  proof
    assume "isRecordExpired now' ?s' recordId"
    then obtain t where "map_of (ttlMap ?s') recordId = Some t" and le: "t \<le> now'"
      by (rule isRecordExpiredE)
    then have "map_of ?ts recordId = Some t"
      by (simp only: db.simps)
    then have "now' < t"
      by (rule restored_ttls_live [OF bound])
    with le show False by simp
  qed
  have look: "map_of ?es recordId =
      (if isRecordExpired now s recordId then None else map_of (records s) recordId)" for recordId
    by (simp add: case_prod_unfold map_of_filter [of "\<lambda>k. \<not> isRecordExpired now s k"] restrict_map_def)
  have g: "get now' ?s' recordId field = get now s recordId field" for recordId field
    by (simp add: get_def live look)
  have f: "getFields now' ?s' recordId = getFields now s recordId" for recordId
    by (simp add: getFields_def live look)
  have h: "hasRecord now' ?s' recordId = hasRecord now s recordId" for recordId
    by (simp add: hasRecord_def live look)
  have keys: "map fst ?es = ?valid"
    by (simp add: filter_map comp_def case_prod_unfold)
  have a: "getAllRecordIds now' ?s' = getAllRecordIds now s"
  proof -
    have "filter (\<lambda>recordId. \<not> isRecordExpired now' ?s' recordId) (map fst ?es) = map fst ?es"
      by (rule filter_True, rule ballI, rule live)
    then show ?thesis
      unfolding getAllRecordIds_def by (simp only: db.simps keys)
  qed
  show ?thesis
    unfolding r using g f h a by simp
qed

text \<open>
  When every record is expired at the reading \<open>now'\<close> exactly if it is at the reading
  \<open>now\<close>, the reads of a store at the two readings agree.
\<close>

lemma reads_same_expiry:
  assumes "\<forall>recordId. isRecordExpired now' s recordId = isRecordExpired now s recordId"
  shows "get now' s recordId field = get now s recordId field"
    and "getFields now' s recordId = getFields now s recordId"
    and "hasRecord now' s recordId = hasRecord now s recordId"
    and "getAllRecordIds now' s = getAllRecordIds now s"
  using assms by (simp_all add: get_def getFields_def hasRecord_def getAllRecordIds_def)

section \<open>Stores built by calls\<close>

lemma list_all_update:
  "list_all P al \<Longrightarrow> P (k, v) \<Longrightarrow> list_all P (AList.update k v al)"
  by (induction al) auto

lemma list_all_delete: "list_all P al \<Longrightarrow> list_all P (AList.delete k al)"
  by (simp add: AList.delete_eq list_all_iff)

lemma record_inv_update:
  assumes "no_newline recordId" and "no_newline f" and "no_newline v"
    and "fs = [] \<or> record_inv (recordId, fs)"
  shows "record_inv (recordId, AList.update f v fs)"
  using assms by (auto simp: record_inv_def distinct_update list_all_update)

lemma record_inv_delete:
  assumes "record_inv (recordId, fs)" and "AList.delete f fs \<noteq> []"
  shows "record_inv (recordId, AList.delete f fs)"
  using assms by (auto simp: record_inv_def distinct_delete list_all_delete)

lemma store_inv_cleanup:
  "store_inv now s \<Longrightarrow> store_inv now (cleanupExpiredRecord recordId s)"
  by (simp add: store_inv_def cleanupExpiredRecord_def distinct_delete list_all_delete)

lemma store_inv_assign:
  assumes "store_inv now s" and "no_newline recordId" and "no_newline f" and "no_newline v"
  shows "store_inv now (s\<lparr>records := assign_field recordId f v (records s)\<rparr>)"
proof -
  let ?old = "case map_of (records s) recordId of None \<Rightarrow> [] | Some fs \<Rightarrow> fs"
  from assms(1) have all: "list_all record_inv (records s)"
    by (simp add: store_inv_def)
  have "?old = [] \<or> record_inv (recordId, ?old)"
  proof (cases "map_of (records s) recordId")
    case None
    then show ?thesis by simp
  next
    case (Some fs)
    then have "(recordId, fs) \<in> set (records s)"
      by (rule map_of_SomeD)
    with all Some show ?thesis
      by (auto simp: list_all_iff)
  qed
  with assms(2-4) have "record_inv (recordId, AList.update f v ?old)"
    by (rule record_inv_update)
  with assms(1) show ?thesis
    by (simp add: store_inv_def assign_field_def distinct_update list_all_update)
qed

lemma store_inv_set_db:
  assumes "store_inv now s" and "no_newline recordId" and "no_newline f" and "no_newline v"
  shows "store_inv now (set_db t recordId f v s)"
  using assms
  by (simp add: set_db_def Let_def store_inv_assign store_inv_cleanup)

lemma store_inv_deleteField:
  assumes "store_inv now s"
  shows "store_inv now (snd (deleteField t recordId f s))"
proof (cases "isRecordExpired t s recordId")
  case True
  with assms show ?thesis
    by (simp add: deleteField_def store_inv_cleanup)
next
  case False
  show ?thesis
  proof (cases "map_of (records s) recordId")
    case None
    with False assms show ?thesis
      by (simp add: deleteField_def)
  next
    case (Some fs)
    then have "(recordId, fs) \<in> set (records s)"
      by (rule map_of_SomeD)
    with assms have inv: "record_inv (recordId, fs)"
      by (auto simp: store_inv_def list_all_iff)
    show ?thesis
    proof (cases "map_of fs f")
      case None
      with False Some assms show ?thesis
        by (simp add: deleteField_def)
    next
      case (Some v)
      show ?thesis
      proof (cases "AList.delete f fs = []")
        case True
        with False \<open>map_of (records s) recordId = Some fs\<close> Some assms show ?thesis
          by (simp add: deleteField_def store_inv_def distinct_delete list_all_delete)
      next
        case nonempty: False
        with inv have "record_inv (recordId, AList.delete f fs)"
          by (rule record_inv_delete)
        with False \<open>map_of (records s) recordId = Some fs\<close> Some nonempty assms show ?thesis
          by (simp add: deleteField_def store_inv_def distinct_update list_all_update)
      qed
    qed
  qed
qed

lemma store_inv_deleteRecord:
  assumes "store_inv now s"
  shows "store_inv now (snd (deleteRecord recordId s))"
  using assms
  by (auto simp: deleteRecord_def store_inv_def distinct_delete list_all_delete split: option.splits)

lemma sint32_le: "sint (w :: 32 word) \<le> 2147483647"
  using sint_lt [of w] by simp

lemma store_inv_setTTL:
  assumes "store_inv now s" and "t \<le> now"
  shows "store_inv now (setTTL t recordId ttlSeconds s)"
proof -
  have "t + seconds (sint ttlSeconds) \<le> now + seconds 2147483647"
    using assms(2) sint32_le [of ttlSeconds] by (simp add: seconds_def ticks_per_second_def)
  with assms(1) show ?thesis
    by (auto simp: setTTL_def store_inv_def list_all_update split: option.splits)
qed

lemma store_inv_apply_call:
  assumes "store_inv now s" and "t \<le> now" and "newline_free_call c"
  shows "store_inv now (apply_call t c s)"
  using assms
  by (cases c)
     (simp_all add: store_inv_set_db store_inv_deleteField store_inv_deleteRecord store_inv_setTTL)

lemma store_inv_run_calls:
  assumes "store_inv now s" and "calls_until now cs"
    and "list_all (\<lambda>(t, c). newline_free_call c) cs"
  shows "store_inv now (run_calls cs s)"
  using assms
proof (induction cs arbitrary: s)
  case Nil
  then show ?case by simp
next
  case (Cons tc cs)
  obtain t c where tc: "tc = (t, c)" by (cases tc)
  from Cons.prems have "store_inv now (apply_call t c s)"
    by (simp add: tc calls_until_def store_inv_apply_call)
  with Cons.prems show ?case
    by (simp add: tc calls_until_def Cons.IH)
qed

lemma store_inv_empty: "store_inv now empty_db"
  by (simp add: store_inv_def empty_db_def)

lemma round_trip_readyI:
  assumes "store_inv now s" and "counts_fit s"
  shows "round_trip_ready now s"
  using assms
  by (auto simp: round_trip_ready_def store_inv_def counts_fit_def record_ready_def record_inv_def
      list_all_iff)

text \<open>
  A count above the largest \<^verbatim>\<open>int\<close> is written by \<open>backup\<close> and refused by \<^verbatim>\<open>std::stoi\<close>:
  the round trip needs the counts to fit.
\<close>

lemma stoi_show_nat_out_of_range:
  assumes "2147483647 < n"
  shows "stoi (show_nat n) = Inl out_of_range"
proof -
  obtain c cs where cs: "show_nat n = c # cs"
    using show_nat_nonempty [of n] by (cases "show_nat n") auto
  have dig: "\<And>x. x \<in> set (show_nat n) \<Longrightarrow> isdigit x"
    by (rule show_nat_digits)
  then have c: "isdigit c"
    by (simp add: cs)
  have dw: "dropWhile isspace (show_nat n) = show_nat n"
    using c by (simp add: cs isdigit_not_isspace)
  have tw: "takeWhile isdigit (show_nat n) = show_nat n"
    using dig by (simp add: takeWhile_eq_all_conv)
  have hd: "hd (show_nat n) \<noteq> CHR ''-''" "hd (show_nat n) \<noteq> CHR ''+''"
    using c isdigit_not_sign [of c] by (simp_all add: cs)
  show ?thesis
    using assms
    by (simp add: stoi_def Let_def dw hd tw show_nat_nonempty digits_value_show_nat)
qed

lemma restore_backup_too_many_records:
  assumes "2147483647 < length (filter (\<lambda>recordId. \<not> isRecordExpired now s recordId) (map fst (records s)))"
  shows "restore now (backup now s) s0 = (False, empty_db)"
proof -
  let ?valid = "filter (\<lambda>recordId. \<not> isRecordExpired now s recordId) (map fst (records s))"
  obtain rest where b: "backup now s = show_nat (length ?valid) @ endl # rest"
    by (simp add: backup_def Let_def)
  show ?thesis
    unfolding restore_def b
    by (simp only: getline_line [OF show_nat_no_endl] stoi_show_nat_out_of_range [OF assms]
        option.case prod.case sum.case)
qed

text \<open>
  Claim C1, as stated, asks for the round trip with arbitrary characters in ids, field
  names and values. A value with a newline in it is written as two lines; \<open>restore\<close>
  takes the second line for the TTL count, \<^verbatim>\<open>std::stoi\<close> throws, and the store ends up
  empty: the record that \<open>hasRecord\<close> reported before is gone.
\<close>

theorem round_trip_fails_with_newline:
  "hasRecord 0 (run_calls newline_calls empty_db) ''a'' = True \<and>
   restore 0 (backup 0 (run_calls newline_calls empty_db)) (run_calls newline_calls empty_db) =
     (False, empty_db) \<and>
   hasRecord 0
     (snd (restore 0 (backup 0 (run_calls newline_calls empty_db)) (run_calls newline_calls empty_db)))
     ''a'' = False"
  by code_simp

text \<open>
  Claim C1, amended. Let the store \<open>s\<close> be built from the empty store by calls of \<open>set\<close>,
  \<open>deleteField\<close>, \<open>deleteRecord\<close> and \<open>setTTL\<close> at clock readings up to \<open>t1\<close>, with no
  newline in any id, field name or value given to \<open>set\<close>, and let the number of records
  and the number of fields of each record fit an \<^verbatim>\<open>int\<close>. Let \<open>backup\<close> run at the
  reading \<open>t1\<close> and \<open>restore\<close> of its result at any reading \<open>t2\<close>. Then \<open>restore\<close> succeeds,
  and \<open>get\<close>, \<open>getFields\<close>, \<open>hasRecord\<close> and \<open>getAllRecordIds\<close> answer on the restored
  store at \<open>t2\<close> as they do on \<open>s\<close> at \<open>t1\<close>. When no record expires in the window, that
  is, every record is expired at \<open>t2\<close> exactly if it is at \<open>t1\<close>, they answer on the
  restored store at \<open>t2\<close> as they do on \<open>s\<close> at \<open>t2\<close>.
\<close>

theorem restore_backup_round_trip:
  assumes "calls_until t1 cs"
    and "list_all (\<lambda>(t, c). newline_free_call c) cs"
    and "s = run_calls cs empty_db"
    and "counts_fit s"
  shows "fst (restore t2 (backup t1 s) s) = True \<and>
         (\<forall>recordId field.
            get t2 (snd (restore t2 (backup t1 s) s)) recordId field = get t1 s recordId field) \<and>
         (\<forall>recordId.
            getFields t2 (snd (restore t2 (backup t1 s) s)) recordId = getFields t1 s recordId \<and>
            hasRecord t2 (snd (restore t2 (backup t1 s) s)) recordId = hasRecord t1 s recordId) \<and>
         getAllRecordIds t2 (snd (restore t2 (backup t1 s) s)) = getAllRecordIds t1 s \<and>
         ((\<forall>recordId. isRecordExpired t2 s recordId = isRecordExpired t1 s recordId) \<longrightarrow>
            (\<forall>recordId field.
               get t2 (snd (restore t2 (backup t1 s) s)) recordId field = get t2 s recordId field) \<and>
            (\<forall>recordId.
               getFields t2 (snd (restore t2 (backup t1 s) s)) recordId = getFields t2 s recordId \<and>
               hasRecord t2 (snd (restore t2 (backup t1 s) s)) recordId = hasRecord t2 s recordId) \<and>
            getAllRecordIds t2 (snd (restore t2 (backup t1 s) s)) = getAllRecordIds t2 s)"
proof -
  have "store_inv t1 s"
    unfolding assms(3) using store_inv_empty assms(1,2) by (rule store_inv_run_calls)
  then have "round_trip_ready t1 s"
    using assms(4) by (rule round_trip_readyI)
  then have at_t1: "fst (restore t2 (backup t1 s) s) = True \<and>
         (\<forall>recordId field.
            get t2 (snd (restore t2 (backup t1 s) s)) recordId field = get t1 s recordId field) \<and>
         (\<forall>recordId.
            getFields t2 (snd (restore t2 (backup t1 s) s)) recordId = getFields t1 s recordId \<and>
            hasRecord t2 (snd (restore t2 (backup t1 s) s)) recordId = hasRecord t1 s recordId) \<and>
         getAllRecordIds t2 (snd (restore t2 (backup t1 s) s)) = getAllRecordIds t1 s"
    by (rule round_trip_state)
  have at_t2: "(\<forall>recordId field.
               get t2 (snd (restore t2 (backup t1 s) s)) recordId field = get t2 s recordId field) \<and>
            (\<forall>recordId.
               getFields t2 (snd (restore t2 (backup t1 s) s)) recordId = getFields t2 s recordId \<and>
               hasRecord t2 (snd (restore t2 (backup t1 s) s)) recordId = hasRecord t2 s recordId) \<and>
            getAllRecordIds t2 (snd (restore t2 (backup t1 s) s)) = getAllRecordIds t2 s"
    if same: "\<forall>recordId. isRecordExpired t2 s recordId = isRecordExpired t1 s recordId"
    using at_t1 by (simp only: reads_same_expiry [OF same] simp_thms)
  from at_t1 at_t2 show ?thesis
    by blast
qed

theorem restore_backup_round_trip_witness:
  "calls_until 5 round_trip_calls \<and>
   list_all (\<lambda>(t, c). newline_free_call c) round_trip_calls \<and>
   counts_fit (run_calls round_trip_calls empty_db) \<and>
   (\<forall>recordId. isRecordExpired 40000000000 (run_calls round_trip_calls empty_db) recordId =
      isRecordExpired 5 (run_calls round_trip_calls empty_db) recordId) \<and>
   restore 40000000000 (backup 5 (run_calls round_trip_calls empty_db))
       (run_calls round_trip_calls empty_db) =
     (True, \<lparr>records = [(''a'', [(''h'', ''z'')]), (''b'', [(''g'', ''y'')])],
             ttlMap = [(''b'', 139000000000)]\<rparr>) \<and>
   (\<forall>recordId field.
      get 40000000000 (snd (restore 40000000000 (backup 5 (run_calls round_trip_calls empty_db))
                    (run_calls round_trip_calls empty_db))) recordId field =
      get 40000000000 (run_calls round_trip_calls empty_db) recordId field) \<and>
   (\<forall>recordId.
      hasRecord 40000000000 (snd (restore 40000000000 (backup 5 (run_calls round_trip_calls empty_db))
                    (run_calls round_trip_calls empty_db))) recordId =
      hasRecord 40000000000 (run_calls round_trip_calls empty_db) recordId) \<and>
   getAllRecordIds 40000000000
       (snd (restore 40000000000 (backup 5 (run_calls round_trip_calls empty_db))
              (run_calls round_trip_calls empty_db))) =
     getAllRecordIds 40000000000 (run_calls round_trip_calls empty_db)"
proof -
  have h1: "calls_until 5 round_trip_calls"
    by code_simp
  have h2: "list_all (\<lambda>(t, c). newline_free_call c) round_trip_calls"
    by code_simp
  have e: "run_calls round_trip_calls empty_db =
      \<lparr>records = [(''a'', [(''h'', ''z'')]), (''b'', [(''g'', ''y'')]), (''c'', [(''k'', [])])],
       ttlMap = [(''b'', 100000000001), (''c'', 3)]\<rparr>"
    by code_simp
  have h3: "counts_fit (run_calls round_trip_calls empty_db)"
    unfolding e by (simp add: counts_fit_def)
  have h4: "\<forall>recordId. isRecordExpired 40000000000 (run_calls round_trip_calls empty_db) recordId =
      isRecordExpired 5 (run_calls round_trip_calls empty_db) recordId"
    unfolding e by (simp add: isRecordExpired_def)
  have r: "restore 40000000000 (backup 5 (run_calls round_trip_calls empty_db))
       (run_calls round_trip_calls empty_db) =
     (True, \<lparr>records = [(''a'', [(''h'', ''z'')]), (''b'', [(''g'', ''y'')])],
             ttlMap = [(''b'', 139000000000)]\<rparr>)"
    by code_simp
  from restore_backup_round_trip [OF h1 h2 refl h3, of 40000000000] h1 h2 h3 h4 r show ?thesis
    by blast
qed

section \<open>Unique keys in every store\<close>

text \<open>
  The predicate \<open>wf_db\<close> holds of the empty store and after every operation, \<open>restore\<close>
  of an arbitrary input included: it is the uniqueness of the keys of the hash tables.
\<close>

lemma wf_db_empty: "wf_db empty_db"
  by (simp add: wf_db_def empty_db_def)

lemma wf_db_cleanup: "wf_db s \<Longrightarrow> wf_db (cleanupExpiredRecord recordId s)"
  by (simp add: wf_db_def cleanupExpiredRecord_def distinct_delete list_all_delete)

lemma wf_records_assign_field:
  assumes "distinct (map fst recs)" and "list_all (\<lambda>(recordId, fs). distinct (map fst fs)) recs"
  shows "distinct (map fst (assign_field recordId f v recs)) \<and>
         list_all (\<lambda>(recordId, fs). distinct (map fst fs)) (assign_field recordId f v recs)"
proof -
  let ?old = "case map_of recs recordId of None \<Rightarrow> [] | Some fs \<Rightarrow> fs"
  have "distinct (map fst ?old)"
  proof (cases "map_of recs recordId")
    case None
    then show ?thesis by simp
  next
    case (Some fs)
    then have "(recordId, fs) \<in> set recs"
      by (rule map_of_SomeD)
    with assms(2) Some show ?thesis
      by (auto simp: list_all_iff)
  qed
  then have "distinct (map fst (AList.update f v ?old))"
    by (rule distinct_update)
  with assms show ?thesis
    by (simp add: assign_field_def distinct_update list_all_update)
qed

lemma wf_db_set_db: "wf_db s \<Longrightarrow> wf_db (set_db now recordId f v s)"
proof -
  assume wf: "wf_db s"
  let ?s1 = "if isRecordExpired now s recordId then cleanupExpiredRecord recordId s else s"
  from wf have "wf_db ?s1"
    by (simp add: wf_db_cleanup)
  then show ?thesis
    using wf_records_assign_field [of "records ?s1" recordId f v]
    by (simp add: set_db_def Let_def wf_db_def)
qed

lemma wf_db_deleteField: "wf_db s \<Longrightarrow> wf_db (snd (deleteField now recordId f s))"
proof -
  assume wf: "wf_db s"
  have entry: "distinct (map fst (AList.delete f fs))" if "map_of (records s) recordId = Some fs" for fs
  proof -
    from that have "(recordId, fs) \<in> set (records s)"
      by (rule map_of_SomeD)
    with wf have "distinct (map fst fs)"
      by (auto simp: wf_db_def list_all_iff)
    then show ?thesis
      by (rule distinct_delete)
  qed
  show ?thesis
    using wf wf_db_cleanup [OF wf, of recordId] entry
    by (auto simp: deleteField_def Let_def wf_db_def distinct_delete distinct_update
        list_all_delete list_all_update split: option.splits)
qed

lemma wf_db_deleteRecord: "wf_db s \<Longrightarrow> wf_db (snd (deleteRecord recordId s))"
  by (auto simp: deleteRecord_def wf_db_def distinct_delete list_all_delete split: option.splits)

lemma wf_db_setTTL: "wf_db s \<Longrightarrow> wf_db (setTTL now recordId ttlSeconds s)"
  by (auto simp: setTTL_def wf_db_def distinct_update split: option.splits)

lemma wf_db_expireRecords: "wf_db s \<Longrightarrow> wf_db (snd (expireRecords now s))"
  by (simp add: expireRecords_unfold wf_db_def distinct_map_filter list_all_iff)

lemma wf_db_apply_call: "wf_db s \<Longrightarrow> wf_db (apply_call now c s)"
  by (cases c) (simp_all add: wf_db_set_db wf_db_deleteField wf_db_deleteRecord wf_db_setTTL)

lemma wf_db_run_calls: "wf_db s \<Longrightarrow> wf_db (run_calls cs s)"
proof (induction cs arbitrary: s)
  case Nil
  then show ?case by simp
next
  case (Cons tc cs)
  obtain t c where "tc = (t, c)" by (cases tc)
  with Cons show ?case
    by (simp add: wf_db_apply_call)
qed

lemma read_fields_wf:
  assumes "distinct (map fst recs)" and "list_all (\<lambda>(recordId, fs). distinct (map fst fs)) recs"
    and "read_fields n recordId stream recs = Ok (stream', recs') \<or>
         read_fields n recordId stream recs = ReturnFalse recs'"
  shows "distinct (map fst recs') \<and> list_all (\<lambda>(recordId, fs). distinct (map fst fs)) recs'"
  using assms
proof (induction n arbitrary: stream recs)
  case 0
  then show ?case by auto
next
  case (Suc n)
  show ?case
  proof (cases "getline stream")
    case None
    with Suc.prems show ?thesis by auto
  next
    case (Some l1)
    obtain field stream1 where l1: "l1 = (field, stream1)" by (cases l1)
    show ?thesis
    proof (cases "getline stream1")
      case None
      with Suc.prems Some l1 show ?thesis by auto
    next
      case (Some l2)
      obtain val stream2 where l2: "l2 = (val, stream2)" by (cases l2)
      from Suc.prems(3) \<open>getline stream = Some l1\<close> l1 Some l2
      have step: "read_fields n recordId stream2 (assign_field recordId field val recs) = Ok (stream', recs') \<or>
          read_fields n recordId stream2 (assign_field recordId field val recs) = ReturnFalse recs'"
        by simp
      from wf_records_assign_field [OF Suc.prems(1,2), of recordId field val]
      show ?thesis
        using Suc.IH [OF _ _ step] by blast
    qed
  qed
qed

lemma read_records_wf:
  assumes "distinct (map fst recs)" and "list_all (\<lambda>(recordId, fs). distinct (map fst fs)) recs"
    and "read_records n stream recs = Ok (stream', recs') \<or>
         read_records n stream recs = ReturnFalse recs'"
  shows "distinct (map fst recs') \<and> list_all (\<lambda>(recordId, fs). distinct (map fst fs)) recs'"
  using assms
proof (induction n arbitrary: stream recs)
  case 0
  then show ?case by auto
next
  case (Suc n)
  show ?case
  proof (cases "getline stream")
    case None
    with Suc.prems show ?thesis by auto
  next
    case (Some l1)
    obtain recordId stream1 where l1: "l1 = (recordId, stream1)" by (cases l1)
    show ?thesis
    proof (cases "getline stream1")
      case None
      with Suc.prems Some l1 show ?thesis by auto
    next
      case (Some l2)
      obtain line stream2 where l2: "l2 = (line, stream2)" by (cases l2)
      note g = \<open>getline stream = Some l1\<close> l1 Some l2
      show ?thesis
      proof (cases "stoi line")
        case (Inl e)
        with Suc.prems(3) g show ?thesis by simp
      next
        case (Inr fieldCount)
        show ?thesis
        proof (cases "read_fields (nat fieldCount) recordId stream2 recs")
          case (Ok r)
          obtain stream3 recs1 where r: "r = (stream3, recs1)" by (cases r)
          from read_fields_wf [OF Suc.prems(1,2)] Ok r
          have wf1: "distinct (map fst recs1)" "list_all (\<lambda>(recordId, fs). distinct (map fst fs)) recs1"
            by blast+
          from Suc.prems(3) g Inr Ok r
          have "read_records n stream3 recs1 = Ok (stream', recs') \<or>
              read_records n stream3 recs1 = ReturnFalse recs'"
            by simp
          with wf1 show ?thesis
            by (rule Suc.IH)
        next
          case (ReturnFalse recs1)
          with Suc.prems(3) g Inr have "recs1 = recs'" by simp
          with read_fields_wf [OF Suc.prems(1,2)] ReturnFalse show ?thesis
            by blast
        next
          case (Throw e)
          with Suc.prems(3) g Inr show ?thesis by simp
        qed
      qed
    qed
  qed
qed

lemma read_ttls_wf:
  assumes "distinct (map fst ttls)"
    and "read_ttls now n stream ttls = Ok (stream', ttls') \<or>
         read_ttls now n stream ttls = ReturnFalse ttls'"
  shows "distinct (map fst ttls')"
  using assms
proof (induction n arbitrary: stream ttls)
  case 0
  then show ?case by auto
next
  case (Suc n)
  show ?case
  proof (cases "getline stream")
    case None
    with Suc.prems show ?thesis by auto
  next
    case (Some l1)
    obtain recordId stream1 where l1: "l1 = (recordId, stream1)" by (cases l1)
    show ?thesis
    proof (cases "getline stream1")
      case None
      with Suc.prems Some l1 show ?thesis by auto
    next
      case (Some l2)
      obtain line stream2 where l2: "l2 = (line, stream2)" by (cases l2)
      note g = \<open>getline stream = Some l1\<close> l1 Some l2
      show ?thesis
      proof (cases "stoi line")
        case (Inl e)
        with Suc.prems(2) g show ?thesis by simp
      next
        case (Inr ttlSeconds)
        from Suc.prems(1) have d: "distinct (map fst (AList.update recordId (now + seconds ttlSeconds) ttls))"
          by (rule distinct_update)
        from Suc.prems(2) g Inr
        have "read_ttls now n stream2 (AList.update recordId (now + seconds ttlSeconds) ttls) = Ok (stream', ttls') \<or>
            read_ttls now n stream2 (AList.update recordId (now + seconds ttlSeconds) ttls) = ReturnFalse ttls'"
          by simp
        with d show ?thesis
          by (rule Suc.IH)
      qed
    qed
  qed
qed

lemma wf_db_restore: "wf_db (snd (restore now backupData s))"
proof -
  have w0: "distinct (map fst ([] :: record_table))"
      "list_all (\<lambda>(recordId, fs). distinct (map fst fs)) ([] :: record_table)"
    by simp_all
  have t0: "distinct (map fst ([] :: ttl_table))"
    by simp
  have r1: "distinct (map fst r) \<and> list_all (\<lambda>(recordId, fs). distinct (map fst fs)) r"
    if "read_records n st [] = Ok (st', r)" for n st st' r
    using read_records_wf [OF w0] that by blast
  have r2: "distinct (map fst r) \<and> list_all (\<lambda>(recordId, fs). distinct (map fst fs)) r"
    if "read_records n st [] = ReturnFalse r" for n st r
    using read_records_wf [OF w0] that by blast
  have t1: "distinct (map fst r)" if "read_ttls now n st [] = Ok (st', r)" for n st st' r
    using read_ttls_wf [OF t0] that by blast
  have t2: "distinct (map fst r)" if "read_ttls now n st [] = ReturnFalse r" for n st r
    using read_ttls_wf [OF t0] that by blast
  show ?thesis
    by (auto simp: restore_def wf_db_def empty_db_def
        split: option.splits sum.splits parse.splits dest: r1 r2 t1 t2)
qed

section \<open>TTL entries of stores built without restore\<close>

text \<open>
  \<open>set\<close>, \<open>deleteField\<close>, \<open>deleteRecord\<close>, \<open>setTTL\<close> and \<open>expireRecords\<close> keep every id of
  the TTL table among the ids of the record table.
\<close>

lemma delete_keys_set: "fst ` set (AList.delete k al) = fst ` set al - {k}"
  by (auto simp: AList.delete_eq)

lemma assign_field_keys: "fst ` set (assign_field recordId f v recs) = {recordId} \<union> fst ` set recs"
  by (simp add: assign_field_def dom_update)

lemma ttl_ids_cleanup:
  assumes "fst ` set (ttlMap s) \<subseteq> fst ` set (records s)"
  shows "fst ` set (ttlMap (cleanupExpiredRecord recordId s)) \<subseteq>
         fst ` set (records (cleanupExpiredRecord recordId s))"
  using assms by (auto simp: cleanupExpiredRecord_def delete_keys_set)

lemma ttl_ids_set_db:
  assumes "fst ` set (ttlMap s) \<subseteq> fst ` set (records s)"
  shows "fst ` set (ttlMap (set_db now recordId f v s)) \<subseteq>
         fst ` set (records (set_db now recordId f v s))"
  using assms ttl_ids_cleanup [OF assms, of recordId]
  by (auto simp: set_db_def Let_def assign_field_keys)

lemma ttl_ids_deleteField:
  assumes "fst ` set (ttlMap s) \<subseteq> fst ` set (records s)"
  shows "fst ` set (ttlMap (snd (deleteField now recordId f s))) \<subseteq>
         fst ` set (records (snd (deleteField now recordId f s)))"
  using assms ttl_ids_cleanup [OF assms, of recordId]
  by (auto simp: deleteField_def Let_def delete_keys_set dom_update split: option.splits)

lemma ttl_ids_deleteRecord:
  assumes "fst ` set (ttlMap s) \<subseteq> fst ` set (records s)"
  shows "fst ` set (ttlMap (snd (deleteRecord recordId s))) \<subseteq>
         fst ` set (records (snd (deleteRecord recordId s)))"
  using assms by (auto simp: deleteRecord_def delete_keys_set split: option.splits)

lemma ttl_ids_setTTL:
  assumes "fst ` set (ttlMap s) \<subseteq> fst ` set (records s)"
  shows "fst ` set (ttlMap (setTTL now recordId ttlSeconds s)) \<subseteq>
         fst ` set (records (setTTL now recordId ttlSeconds s))"
proof (cases "map_of (records s) recordId")
  case None
  with assms show ?thesis by (simp add: setTTL_def)
next
  case (Some fs)
  then have "(recordId, fs) \<in> set (records s)"
    by (rule map_of_SomeD)
  then have "recordId \<in> fst ` set (records s)"
    by force
  with assms Some show ?thesis
    by (auto simp: setTTL_def dom_update)
qed

lemma filter_keys_subset:
  assumes "fst ` set a \<subseteq> fst ` set b"
  shows "fst ` set (filter (\<lambda>p. fst p \<notin> X) a) \<subseteq> fst ` set (filter (\<lambda>p. fst p \<notin> X) b)"
proof
  fix k assume "k \<in> fst ` set (filter (\<lambda>p. fst p \<notin> X) a)"
  then have "k \<in> fst ` set a" and "k \<notin> X"
    by auto
  with assms obtain p where "p \<in> set b" and "fst p = k"
    by auto
  with \<open>k \<notin> X\<close> show "k \<in> fst ` set (filter (\<lambda>p. fst p \<notin> X) b)"
    by force
qed

lemma ttl_ids_expireRecords:
  assumes "fst ` set (ttlMap s) \<subseteq> fst ` set (records s)"
  shows "fst ` set (ttlMap (snd (expireRecords now s))) \<subseteq>
         fst ` set (records (snd (expireRecords now s)))"
proof -
  obtain ids where "snd (expireRecords now s) =
      s\<lparr>records := filter (\<lambda>p. fst p \<notin> set ids) (records s),
        ttlMap := filter (\<lambda>p. fst p \<notin> set ids) (ttlMap s)\<rparr>"
    by (simp only: expireRecords_def Let_def snd_conv fold_cleanupExpiredRecord)
  then show ?thesis
    using filter_keys_subset [OF assms, of "set ids"] by simp
qed

lemma ttl_ids_apply_call:
  assumes "fst ` set (ttlMap s) \<subseteq> fst ` set (records s)"
  shows "fst ` set (ttlMap (apply_call now c s)) \<subseteq> fst ` set (records (apply_call now c s))"
  using assms
  by (cases c) (simp_all add: ttl_ids_set_db ttl_ids_deleteField ttl_ids_deleteRecord ttl_ids_setTTL)

lemma ttl_ids_run_calls:
  assumes "fst ` set (ttlMap s) \<subseteq> fst ` set (records s)"
  shows "fst ` set (ttlMap (run_calls cs s)) \<subseteq> fst ` set (records (run_calls cs s))"
  using assms
proof (induction cs arbitrary: s)
  case Nil
  then show ?case by simp
next
  case (Cons tc cs)
  obtain t c where tc: "tc = (t, c)" by (cases tc)
  from Cons.prems have "fst ` set (ttlMap (apply_call t c s)) \<subseteq> fst ` set (records (apply_call t c s))"
    by (rule ttl_ids_apply_call)
  then show ?case
    by (simp add: tc Cons.IH)
qed

end
